theory Spec2Isabelle
  imports Complex_Main "HOL-Library.Multiset"
begin

section \<open>Time values and the calendar of ECMAScript dates\<close>

text \<open>
  A time value is a number of milliseconds since 1970-01-01T00:00:00Z. The Date methods
  that \<^verbatim>\<open>script.js\<close> calls are defined by ECMA-262 (section "Date Objects") through the
  functions below; they keep the names of the standard.
\<close>

definition msPerDay :: int where "msPerDay = 86400000"
definition msPerHour :: int where "msPerHour = 3600000"
definition msPerMinute :: int where "msPerMinute = 60000"
definition msPerSecond :: int where "msPerSecond = 1000"

definition Day :: "int \<Rightarrow> int" where
  "Day t = t div msPerDay"

definition TimeWithinDay :: "int \<Rightarrow> int" where
  "TimeWithinDay t = t mod msPerDay"

definition DaysInYear :: "int \<Rightarrow> int" where
  "DaysInYear y =
     (if y mod 4 \<noteq> 0 then 365
      else if y mod 100 \<noteq> 0 then 366
      else if y mod 400 \<noteq> 0 then 365
      else 366)"

definition DayFromYear :: "int \<Rightarrow> int" where
  "DayFromYear y =
     365 * (y - 1970) + (y - 1969) div 4 - (y - 1901) div 100 + (y - 1601) div 400"

lemma div_succ:
  fixes a n :: int
  assumes "1 < n"
  shows "(a + 1) div n = a div n + (if (a + 1) mod n = 0 then 1 else 0)"
proof -
  have r: "0 \<le> a mod n" "a mod n < n" using assms by simp_all
  have e: "a + 1 = (a mod n + 1) + (a div n) * n" by simp
  show ?thesis
  proof (cases "a mod n + 1 = n")
    case True
    then have "a + 1 = n * (a div n + 1)" using e by (simp add: algebra_simps)
    then show ?thesis using assms by simp
  next
    case False
    then have lt: "a mod n + 1 < n" using r by linarith
    have n0: "n \<noteq> 0" using assms by simp
    have "(a + 1) div n = ((a mod n + 1) + (a div n) * n) div n" by (subst e) (rule refl)
    also have "\<dots> = a div n + (a mod n + 1) div n" by (rule div_mult_self1[OF n0])
    also have "(a mod n + 1) div n = 0" using lt r by (simp add: div_pos_pos_trivial)
    finally have d: "(a + 1) div n = a div n" by simp
    have "(a + 1) mod n = ((a mod n + 1) + (a div n) * n) mod n" by (subst e) (rule refl)
    also have "\<dots> = (a mod n + 1) mod n" by (rule mod_mult_self1)
    also have "\<dots> = a mod n + 1" using lt r by (simp add: mod_pos_pos_trivial)
    finally have m: "(a + 1) mod n = a mod n + 1" .
    show ?thesis using d m r by simp
  qed
qed

lemma mod_dvd_coarser:
  fixes y :: int
  assumes "y mod m = 0" and "k dvd m"
  shows "y mod k = 0"
proof -
  have "m dvd y" using assms(1) by (simp add: mod_eq_0_iff_dvd)
  with assms(2) have "k dvd y" by (rule dvd_trans)
  then show ?thesis by (simp add: mod_eq_0_iff_dvd)
qed

lemma DayFromYear_step: "DayFromYear (y + 1) = DayFromYear y + DaysInYear y"
proof -
  have a: "(y + 1 - 1969) div 4 = (y - 1969) div 4 + (if y mod 4 = 0 then 1 else 0)"
  proof -
    have "(y - 1968) mod 4 = (y + (- 492) * 4) mod 4" by simp
    also have "\<dots> = y mod 4" by (rule mod_mult_self1)
    finally show ?thesis using div_succ[of 4 "y - 1969"] by simp
  qed
  have b: "(y + 1 - 1901) div 100 = (y - 1901) div 100 + (if y mod 100 = 0 then 1 else 0)"
  proof -
    have "(y - 1900) mod 100 = (y + (- 19) * 100) mod 100" by simp
    also have "\<dots> = y mod 100" by (rule mod_mult_self1)
    finally show ?thesis using div_succ[of 100 "y - 1901"] by simp
  qed
  have c: "(y + 1 - 1601) div 400 = (y - 1601) div 400 + (if y mod 400 = 0 then 1 else 0)"
  proof -
    have "(y - 1600) mod 400 = (y + (- 4) * 400) mod 400" by simp
    also have "\<dots> = y mod 400" by (rule mod_mult_self1)
    finally show ?thesis using div_succ[of 400 "y - 1601"] by simp
  qed
  have d: "y mod 100 = 0 \<Longrightarrow> y mod 4 = 0"
    by (rule mod_dvd_coarser[of y 100 4]) simp_all
  have e: "y mod 400 = 0 \<Longrightarrow> y mod 100 = 0"
    by (rule mod_dvd_coarser[of y 400 100]) simp_all
  show ?thesis
    using d e unfolding DayFromYear_def DaysInYear_def a b c by auto
qed

lemma DaysInYear_cases: "DaysInYear y = 365 \<or> DaysInYear y = 366"
  by (simp add: DaysInYear_def)

lemma DayFromYear_less_step: "DayFromYear y < DayFromYear (y + 1)"
  using DaysInYear_cases[of y] by (auto simp: DayFromYear_step)

text \<open>
  \<^verbatim>\<open>YearFromTime(t)\<close> is "the largest integer y such that TimeFromYear(y) \<le> t". The search
  starts from a year that is not after it and climbs.
\<close>

function year_search :: "int \<Rightarrow> int \<Rightarrow> int" where
  "year_search d y = (if DayFromYear (y + 1) \<le> d then year_search d (y + 1) else y)"
  by pat_completeness auto
termination
proof (relation "measure (\<lambda>(d, y). nat (d - DayFromYear y))")
  show "wf (measure (\<lambda>(d, y). nat (d - DayFromYear y)))" by simp
next
  fix d y :: int
  assume "DayFromYear (y + 1) \<le> d"
  then show "((d, y + 1), (d, y)) \<in> measure (\<lambda>(d, y). nat (d - DayFromYear y))"
    using DayFromYear_less_step[of y] by simp
qed

declare year_search.simps [simp del]

definition YearFromTime :: "int \<Rightarrow> int" where
  "YearFromTime t =
     (let d = Day t
      in year_search d (1970 + (if d < 0 then d div 365 else d div 366)))"

definition InLeapYear :: "int \<Rightarrow> int" where
  "InLeapYear t = (if DaysInYear (YearFromTime t) = 366 then 1 else 0)"

definition DayWithinYear :: "int \<Rightarrow> int" where
  "DayWithinYear t = Day t - DayFromYear (YearFromTime t)"

text \<open>The day number within the year on which month \<open>m\<close> (0 to 11) starts.\<close>

definition monthStart :: "int \<Rightarrow> int \<Rightarrow> int" where
  "monthStart m leap =
     (if m = 0 then 0 else if m = 1 then 31 else if m = 2 then 59 + leap
      else if m = 3 then 90 + leap else if m = 4 then 120 + leap
      else if m = 5 then 151 + leap else if m = 6 then 181 + leap
      else if m = 7 then 212 + leap else if m = 8 then 243 + leap
      else if m = 9 then 273 + leap else if m = 10 then 304 + leap
      else 334 + leap)"

definition MonthFromTime :: "int \<Rightarrow> int" where
  "MonthFromTime t =
     (let d = DayWithinYear t; leap = InLeapYear t
      in if d < 31 then 0 else if d < 59 + leap then 1 else if d < 90 + leap then 2
         else if d < 120 + leap then 3 else if d < 151 + leap then 4
         else if d < 181 + leap then 5 else if d < 212 + leap then 6
         else if d < 243 + leap then 7 else if d < 273 + leap then 8
         else if d < 304 + leap then 9 else if d < 334 + leap then 10 else 11)"

definition DateFromTime :: "int \<Rightarrow> int" where
  "DateFromTime t = DayWithinYear t - monthStart (MonthFromTime t) (InLeapYear t) + 1"

definition HourFromTime :: "int \<Rightarrow> int" where
  "HourFromTime t = (t div msPerHour) mod 24"

definition MinFromTime :: "int \<Rightarrow> int" where
  "MinFromTime t = (t div msPerMinute) mod 60"

definition SecFromTime :: "int \<Rightarrow> int" where
  "SecFromTime t = (t div msPerSecond) mod 60"

definition msFromTime :: "int \<Rightarrow> int" where
  "msFromTime t = t mod msPerSecond"

definition MakeTime :: "int \<Rightarrow> int \<Rightarrow> int \<Rightarrow> int \<Rightarrow> int" where
  "MakeTime hour minute sec ms =
     hour * msPerHour + minute * msPerMinute + sec * msPerSecond + ms"

text \<open>
  \<^verbatim>\<open>MakeDay(year, month, date)\<close>: the day number of the first of the month, the month
  counted from the year with its overflow carried into the year, plus \<open>date - 1\<close>.
\<close>

definition MakeDay :: "int \<Rightarrow> int \<Rightarrow> int \<Rightarrow> int" where
  "MakeDay year month date =
     (let ym = year + month div 12; mn = month mod 12
      in DayFromYear ym + monthStart mn (if DaysInYear ym = 366 then 1 else 0) + date - 1)"

definition MakeDate :: "int \<Rightarrow> int \<Rightarrow> int" where
  "MakeDate day time = day * msPerDay + time"

text \<open>A Date holds a time value or NaN (\<open>None\<close>); \<^verbatim>\<open>TimeClip\<close> bounds the time values.\<close>

type_synonym jsdate = "int option"

definition maxTime :: int where "maxTime = 8640000000000000"

definition TimeClip :: "int \<Rightarrow> jsdate" where
  "TimeClip t = (if \<bar>t\<bar> > maxTime then None else Some t)"

lemma MonthFromTime_range: "0 \<le> MonthFromTime t \<and> MonthFromTime t \<le> 11"
  by (simp add: MonthFromTime_def Let_def)

lemma MakeDay_shift:
  "MakeDay (YearFromTime t) (MonthFromTime t) (DateFromTime t + n) = Day t + n"
proof -
  have r: "0 \<le> MonthFromTime t" "MonthFromTime t < 12"
    using MonthFromTime_range[of t] by simp_all
  then have d: "MonthFromTime t div 12 = 0" and m: "MonthFromTime t mod 12 = MonthFromTime t"
    by simp_all
  show ?thesis
    unfolding MakeDay_def Let_def d m
    by (simp add: DateFromTime_def DayWithinYear_def InLeapYear_def)
qed


section \<open>The host: what the standard leaves to the implementation\<close>

text \<open>
  Three things the script relies on are implementation-defined in ECMA-262 and are taken
  as parameters, so that every theorem holds for every browser:
  \<^item> \<open>LocalTZA\<close>: the offset of local time from UTC in milliseconds, at a UTC time value
    (\<open>True\<close>) or at a local one (\<open>False\<close>);
  \<^item> \<open>otherDateParse\<close>: what \<^verbatim>\<open>Date.parse\<close> makes of a string that is not of the form
    \<^verbatim>\<open>YYYY-MM-DD\<close> (the longer ISO forms and the formats of the implementation's own);
  \<^item> \<open>NumberToString\<close>: the rendering of a magnitude of \<open>10\<^sup>2\<^sup>1\<close> and more, which
    \<^verbatim>\<open>toFixed\<close> falls back to.
\<close>

record runtime =
  LocalTZA :: "int \<Rightarrow> bool \<Rightarrow> int"
  otherDateParse :: "string \<Rightarrow> int option"
  NumberToString :: "rat \<Rightarrow> string"

text \<open>
  No time zone is a day or more away from UTC; the bound is written into the model, where it
  is what makes the window loop of \<^verbatim>\<open>fetchHistoricalData\<close> advance.
\<close>

definition offset :: "runtime \<Rightarrow> int \<Rightarrow> bool \<Rightarrow> int" where
  "offset rt t isUTC = max (- msPerDay) (min msPerDay (LocalTZA rt t isUTC))"

definition LocalTime :: "runtime \<Rightarrow> int \<Rightarrow> int" where
  "LocalTime rt t = t + offset rt t True"

definition UTC :: "runtime \<Rightarrow> int \<Rightarrow> int" where
  "UTC rt t = t - offset rt t False"

subsection \<open>Date methods\<close>

text \<open>A JavaScript number that is an integer or NaN (\<open>None\<close>).\<close>

type_synonym jsint = "int option"

fun num_add :: "jsint \<Rightarrow> int \<Rightarrow> jsint" where
  "num_add None n = None"
| "num_add (Some v) n = Some (v + n)"

text \<open>\<^verbatim>\<open>a <= b\<close> and \<^verbatim>\<open>a > b\<close> on Dates: false when one of them is Invalid Date.\<close>

fun date_le :: "jsdate \<Rightarrow> jsdate \<Rightarrow> bool" where
  "date_le (Some x) (Some y) = (x \<le> y)"
| "date_le a b = False"

fun date_gt :: "jsdate \<Rightarrow> jsdate \<Rightarrow> bool" where
  "date_gt (Some x) (Some y) = (x > y)"
| "date_gt a b = False"

fun getDate :: "runtime \<Rightarrow> jsdate \<Rightarrow> jsint" where
  "getDate rt None = None"
| "getDate rt (Some t) = Some (DateFromTime (LocalTime rt t))"

text \<open>
  \<^verbatim>\<open>MakeDate(MakeDay(YearFromTime(t), MonthFromTime(t), dt), TimeWithinDay(t))\<close>, the step
  that \<^verbatim>\<open>setDate\<close> (on the local time) and \<^verbatim>\<open>setUTCDate\<close> share.
\<close>

definition withDate :: "int \<Rightarrow> int \<Rightarrow> int" where
  "withDate t dt = MakeDate (MakeDay (YearFromTime t) (MonthFromTime t) dt) (TimeWithinDay t)"

fun setDate :: "runtime \<Rightarrow> jsdate \<Rightarrow> jsint \<Rightarrow> jsdate" where
  "setDate rt (Some t) (Some dt) = TimeClip (UTC rt (withDate (LocalTime rt t) dt))"
| "setDate rt d dt = None"

fun setTime :: "jsint \<Rightarrow> jsdate" where
  "setTime None = None"
| "setTime (Some t) = TimeClip t"

fun getUTCFullYear :: "jsdate \<Rightarrow> jsint" where
  "getUTCFullYear None = None"
| "getUTCFullYear (Some t) = Some (YearFromTime t)"

fun getUTCMonth :: "jsdate \<Rightarrow> jsint" where
  "getUTCMonth None = None"
| "getUTCMonth (Some t) = Some (MonthFromTime t)"

fun getUTCDate :: "jsdate \<Rightarrow> jsint" where
  "getUTCDate None = None"
| "getUTCDate (Some t) = Some (DateFromTime t)"

fun setUTCDate :: "jsdate \<Rightarrow> jsint \<Rightarrow> jsdate" where
  "setUTCDate (Some t) (Some dt) = TimeClip (withDate t dt)"
| "setUTCDate d dt = None"

fun setUTCHours :: "jsdate \<Rightarrow> int \<Rightarrow> int \<Rightarrow> int \<Rightarrow> int \<Rightarrow> jsdate" where
  "setUTCHours None h m s ms = None"
| "setUTCHours (Some t) h m s ms = TimeClip (MakeDate (Day t) (MakeTime h m s ms))"

text \<open>\<^verbatim>\<open>Date.UTC\<close>: a year from 0 to 99 stands for 1900 to 1999.\<close>

definition MakeFullYear :: "int \<Rightarrow> int" where
  "MakeFullYear y = (if 0 \<le> y \<and> y \<le> 99 then 1900 + y else y)"

fun Date_UTC :: "jsint \<Rightarrow> jsint \<Rightarrow> jsint \<Rightarrow> int \<Rightarrow> int \<Rightarrow> int \<Rightarrow> int \<Rightarrow> jsint" where
  "Date_UTC (Some y) (Some mo) (Some dt) h m s ms =
     TimeClip (MakeDate (MakeDay (MakeFullYear y) mo dt) (MakeTime h m s ms))"
| "Date_UTC year month date h m s ms = None"

subsection \<open>Strings\<close>

text \<open>
  Strings are compared as JavaScript compares them, code unit by code unit; a proper prefix
  is smaller.
\<close>

fun str_lt :: "string \<Rightarrow> string \<Rightarrow> bool" where
  "str_lt [] [] = False"
| "str_lt [] (y # ys) = True"
| "str_lt (x # xs) [] = False"
| "str_lt (x # xs) (y # ys) =
     ((of_char x :: int) < of_char y \<or> (x = y \<and> str_lt xs ys))"

definition digit_char :: "int \<Rightarrow> char" where
  "digit_char d = char_of (48 + d mod 10)"

text \<open>The last \<open>k\<close> decimal digits of \<open>n\<close>, zero-padded.\<close>

fun pad :: "nat \<Rightarrow> int \<Rightarrow> string" where
  "pad 0 n = []"
| "pad (Suc k) n = pad k (n div 10) @ [digit_char n]"

datatype error =
  RangeError | SyntaxError | TypeError | QuotaExceededError | SecurityError | HttpError

definition year_string :: "int \<Rightarrow> string" where
  "year_string y =
     (if 0 \<le> y \<and> y \<le> 9999 then pad 4 y
      else if y < 0 then CHR ''-'' # pad 6 (- y)
      else CHR ''+'' # pad 6 y)"

fun toISOString :: "jsdate \<Rightarrow> error + string" where
  "toISOString None = Inl RangeError"
| "toISOString (Some t) =
     Inr (year_string (YearFromTime t) @ ''-'' @ pad 2 (MonthFromTime t + 1)
          @ ''-'' @ pad 2 (DateFromTime t)
          @ ''T'' @ pad 2 (HourFromTime t) @ '':'' @ pad 2 (MinFromTime t)
          @ '':'' @ pad 2 (SecFromTime t) @ ''.'' @ pad 3 (msFromTime t)
          @ ''Z'')"

text \<open>\<^verbatim>\<open>s.split('T')[0]\<close>: the part of \<open>s\<close> before its first \<^verbatim>\<open>T\<close>.\<close>

definition split_T0 :: "string \<Rightarrow> string" where
  "split_T0 s = takeWhile (\<lambda>c. c \<noteq> CHR ''T'') s"

subsection \<open>Parsing a date string\<close>

definition is_digit :: "char \<Rightarrow> bool" where
  "is_digit c = (48 \<le> (of_char c :: int) \<and> (of_char c :: int) \<le> 57)"

definition digits_val :: "string \<Rightarrow> int" where
  "digits_val s = foldl (\<lambda>a c. 10 * a + (of_char c - 48)) 0 s"

definition DaysInMonth :: "int \<Rightarrow> int \<Rightarrow> int" where
  "DaysInMonth y m =
     (if m = 2 then (if DaysInYear y = 366 then 29 else 28)
      else if m = 4 \<or> m = 6 \<or> m = 9 \<or> m = 11 then 30 else 31)"

text \<open>
  The date-only form \<^verbatim>\<open>YYYY-MM-DD\<close> of the standard's date-time string format, read as
  UTC midnight of that day.
\<close>

definition isoDateParse :: "string \<Rightarrow> int option" where
  "isoDateParse s =
     (if length s = 10 \<and> s ! 4 = CHR ''-'' \<and> s ! 7 = CHR ''-''
         \<and> list_all is_digit (take 4 s) \<and> list_all is_digit (take 2 (drop 5 s))
         \<and> list_all is_digit (drop 8 s)
      then (let y = digits_val (take 4 s); m = digits_val (take 2 (drop 5 s));
                d = digits_val (drop 8 s)
            in if 1 \<le> m \<and> m \<le> 12 \<and> 1 \<le> d \<and> d \<le> DaysInMonth y m
               then Some (MakeDate (MakeDay y (m - 1) d) 0) else None)
      else None)"

text \<open>\<^verbatim>\<open>new Date(s)\<close> for a string \<open>s\<close>.\<close>

definition Date_parse :: "runtime \<Rightarrow> string \<Rightarrow> jsdate" where
  "Date_parse rt s =
     (case isoDateParse s of
        Some t \<Rightarrow> TimeClip t
      | None \<Rightarrow> (case otherDateParse rt s of None \<Rightarrow> None | Some t \<Rightarrow> TimeClip t))"


section \<open>The stored series and its merge\<close>

record PricePoint =
  date :: string
  price :: string

text \<open>
  \<^verbatim>\<open>allData.sort((a, b) => new Date(a.date) - new Date(b.date))\<close>. The comparator
  gives NaN when one of the two dates does not parse; \<^verbatim>\<open>Array.prototype.sort\<close> reads
  NaN as \<open>+0\<close> and is stable. Where the comparator is consistent (all dates parse) every
  conforming implementation gives the order of the insertion sort below; otherwise the
  standard leaves the order to the implementation, and the model's is one of them.
\<close>

definition by_date :: "runtime \<Rightarrow> PricePoint \<Rightarrow> PricePoint \<Rightarrow> jsint" where
  "by_date rt a b =
     (case (Date_parse rt (date a), Date_parse rt (date b)) of
        (Some x, Some y) \<Rightarrow> Some (x - y)
      | _ \<Rightarrow> None)"

definition SortCompare :: "('a \<Rightarrow> 'a \<Rightarrow> jsint) \<Rightarrow> 'a \<Rightarrow> 'a \<Rightarrow> int" where
  "SortCompare comparefn x y = (case comparefn x y of None \<Rightarrow> 0 | Some v \<Rightarrow> v)"

fun insert_sorted :: "('a \<Rightarrow> 'a \<Rightarrow> jsint) \<Rightarrow> 'a \<Rightarrow> 'a list \<Rightarrow> 'a list" where
  "insert_sorted comparefn x [] = [x]"
| "insert_sorted comparefn x (y # ys) =
     (if SortCompare comparefn x y \<le> 0 then x # y # ys
      else y # insert_sorted comparefn x ys)"

definition array_sort :: "('a \<Rightarrow> 'a \<Rightarrow> jsint) \<Rightarrow> 'a list \<Rightarrow> 'a list" where
  "array_sort comparefn xs = foldr (insert_sorted comparefn) xs []"

text \<open>
  \<^verbatim>\<open>removeDuplicates\<close>: the filter with its \<^verbatim>\<open>seen\<close> set, which grows as the filter
  goes through the array.
\<close>

fun filter_seen :: "string set \<Rightarrow> PricePoint list \<Rightarrow> PricePoint list" where
  "filter_seen seen [] = []"
| "filter_seen seen (item # rest) =
     (if date item \<in> seen then filter_seen seen rest
      else item # filter_seen (insert (date item) seen) rest)"

definition removeDuplicates :: "PricePoint list \<Rightarrow> PricePoint list" where
  "removeDuplicates data = filter_seen {} data"

text \<open>Lines 91 to 97 of \<^verbatim>\<open>fetchAndStoreData\<close>: concatenate, sort, remove duplicates.\<close>

definition mergeSeries :: "runtime \<Rightarrow> PricePoint list \<Rightarrow> PricePoint list \<Rightarrow> PricePoint list" where
  "mergeSeries rt existingData newData =
     (let allData = existingData @ newData;
          sorted_data = array_sort (by_date rt) allData
      in removeDuplicates sorted_data)"

text \<open>The time value a point is sorted by; only read where the date parses.\<close>

definition date_key :: "runtime \<Rightarrow> PricePoint \<Rightarrow> int" where
  "date_key rt p = (case Date_parse rt (date p) of Some t \<Rightarrow> t | None \<Rightarrow> 0)"

definition dates_parse :: "runtime \<Rightarrow> PricePoint list \<Rightarrow> bool" where
  "dates_parse rt xs = list_all (\<lambda>p. Date_parse rt (date p) \<noteq> None) xs"

subsection \<open>The specification's merge\<close>

text \<open>
  The specification's words for the right-hand side of its merge law: \<open>dedup\<close> keeps the
  first point of every date, \<open>sort_by_date\<close> sorts ascending by date, stably.
\<close>

function spec_dedup :: "PricePoint list \<Rightarrow> PricePoint list" where
  "spec_dedup [] = []"
| "spec_dedup (x # xs) = x # spec_dedup (filter (\<lambda>p. date p \<noteq> date x) xs)"
  by pat_completeness auto
termination
  by (relation "measure length") (auto simp: less_Suc_eq_le)

definition spec_sort_by_date :: "runtime \<Rightarrow> PricePoint list \<Rightarrow> PricePoint list" where
  "spec_sort_by_date rt xs = sort_key (date_key rt) xs"

subsection \<open>Sorting\<close>

lemma mset_insert_sorted: "mset (insert_sorted c x ys) = add_mset x (mset ys)"
  by (induction ys) auto

lemma mset_array_sort: "mset (array_sort c xs) = mset xs"
  by (induction xs) (auto simp: array_sort_def mset_insert_sorted)

lemma set_array_sort: "set (array_sort c xs) = set xs"
  using mset_array_sort[of c xs] by (metis set_mset_mset)

lemma insert_sorted_by_date:
  assumes "Date_parse rt (date x) \<noteq> None" and "dates_parse rt ys"
  shows "insert_sorted (by_date rt) x ys = insort_key (date_key rt) x ys"
  using assms(2)
proof (induction ys)
  case Nil
  then show ?case by simp
next
  case (Cons y ys)
  from Cons.prems have y: "Date_parse rt (date y) \<noteq> None" and ys: "dates_parse rt ys"
    by (simp_all add: dates_parse_def)
  from assms(1) y have "(SortCompare (by_date rt) x y \<le> 0) = (date_key rt x \<le> date_key rt y)"
    by (auto simp: SortCompare_def by_date_def date_key_def)
  with Cons.IH[OF ys] show ?case by simp
qed

lemma dates_parse_insort:
  "dates_parse rt (insort_key k x ys) = (Date_parse rt (date x) \<noteq> None \<and> dates_parse rt ys)"
  by (auto simp: dates_parse_def list_all_iff set_insort_key)

lemma array_sort_by_date:
  "dates_parse rt xs \<Longrightarrow> array_sort (by_date rt) xs = sort_key (date_key rt) xs"
proof (induction xs)
  case Nil
  then show ?case by (simp add: array_sort_def)
next
  case (Cons x xs)
  from Cons.prems have x: "Date_parse rt (date x) \<noteq> None" and xs: "dates_parse rt xs"
    by (simp_all add: dates_parse_def)
  have e: "array_sort (by_date rt) xs = sort_key (date_key rt) xs" by (rule Cons.IH[OF xs])
  have p: "dates_parse rt (sort_key (date_key rt) xs)"
    using xs by (simp add: dates_parse_def list_all_iff)
  have "array_sort (by_date rt) (x # xs) = insert_sorted (by_date rt) x (array_sort (by_date rt) xs)"
    by (simp add: array_sort_def)
  also have "\<dots> = insort_key (date_key rt) x (sort_key (date_key rt) xs)"
    unfolding e by (rule insert_sorted_by_date[OF x p])
  finally show ?case by simp
qed

subsection \<open>Removing duplicates\<close>

lemma set_spec_dedup: "set (spec_dedup xs) \<subseteq> set xs"
  by (induction xs rule: spec_dedup.induct) auto

lemma filter_seen_spec:
  "filter_seen seen xs = spec_dedup (filter (\<lambda>p. date p \<notin> seen) xs)"
proof (induction xs arbitrary: seen)
  case Nil
  then show ?case by simp
next
  case (Cons x xs)
  have "filter (\<lambda>p. date p \<notin> insert (date x) seen) xs
        = filter (\<lambda>p. date p \<noteq> date x) (filter (\<lambda>p. date p \<notin> seen) xs)"
    by (induction xs) auto
  with Cons.IH show ?case by simp
qed

lemma removeDuplicates_spec: "removeDuplicates xs = spec_dedup xs"
  by (simp add: removeDuplicates_def filter_seen_spec)

lemma dates_spec_dedup: "date ` set (spec_dedup xs) = date ` set xs"
proof (induction xs rule: spec_dedup.induct)
  case 1
  then show ?case by simp
next
  case (2 x xs)
  then show ?case by (auto simp: image_iff) 
qed

lemma distinct_spec_dedup: "distinct (map date (spec_dedup xs))"
proof (induction xs rule: spec_dedup.induct)
  case 1
  then show ?case by simp
next
  case (2 x xs)
  have "date x \<notin> date ` set (spec_dedup (filter (\<lambda>p. date p \<noteq> date x) xs))"
    unfolding dates_spec_dedup by auto
  with 2 show ?case by simp
qed

lemma sorted_spec_dedup: "sorted (map k xs) \<Longrightarrow> sorted (map k (spec_dedup xs))"
proof (induction xs rule: spec_dedup.induct)
  case 1
  then show ?case by simp
next
  case (2 x xs)
  from "2.prems" have s: "sorted (map k xs)" and le: "\<forall>y\<in>set xs. k x \<le> k y" by auto
  have "sorted (map k (filter (\<lambda>p. date p \<noteq> date x) xs))" using s by (rule sorted_filter)
  then have "sorted (map k (spec_dedup (filter (\<lambda>p. date p \<noteq> date x) xs)))" by (rule "2.IH")
  moreover have "\<forall>y\<in>set (spec_dedup (filter (\<lambda>p. date p \<noteq> date x) xs)). k x \<le> k y"
    using le set_spec_dedup[of "filter (\<lambda>p. date p \<noteq> date x) xs"] by auto
  ultimately show ?case by simp
qed

lemma spec_dedup_distinct_id: "distinct (map date xs) \<Longrightarrow> spec_dedup xs = xs"
proof (induction xs)
  case Nil
  then show ?case by simp
next
  case (Cons x xs)
  from Cons.prems have nx: "date x \<notin> date ` set xs" by simp
  have "\<forall>p\<in>set xs. date p \<noteq> date x"
  proof
    fix p assume "p \<in> set xs"
    then have "date p \<in> date ` set xs" by (rule imageI)
    with nx show "date p \<noteq> date x" by metis
  qed
  then have "filter (\<lambda>p. date p \<noteq> date x) xs = xs" by (simp add: filter_id_conv)
  with Cons show ?case by simp
qed

lemma filter_date_commute:
  "filter (\<lambda>p. date p \<noteq> a) (filter (\<lambda>p. date p \<noteq> b) xs)
   = filter (\<lambda>p. date p \<noteq> b) (filter (\<lambda>p. date p \<noteq> a) xs)"
  by (induction xs) auto

text \<open>
  Removing duplicates commutes with inserting into a sorted list, and so with the stable
  sort, for a key that is a function of the date.
\<close>

lemma spec_dedup_insort:
  assumes key: "\<And>p q. date p = date q \<Longrightarrow> k p = k q"
  shows "sorted (map k ys) \<Longrightarrow>
         spec_dedup (insort_key k x ys)
         = insort_key k x (spec_dedup (filter (\<lambda>p. date p \<noteq> date x) ys))"
proof (induction "length ys" arbitrary: ys rule: less_induct)
  case less
  show ?case
  proof (cases ys)
    case Nil
    then show ?thesis by simp
  next
    case (Cons y ys')
    from less.prems Cons have s': "sorted (map k ys')" and le: "\<forall>z\<in>set ys'. k y \<le> k z"
      by auto
    show ?thesis
    proof (cases "k x \<le> k y")
      case True
      have "\<forall>z\<in>set (spec_dedup (filter (\<lambda>p. date p \<noteq> date x) ys)). k x \<le> k z"
      proof
        fix z assume "z \<in> set (spec_dedup (filter (\<lambda>p. date p \<noteq> date x) ys))"
        then have "z \<in> set ys" using set_spec_dedup by fastforce
        then show "k x \<le> k z" using True le Cons by auto
      qed
      then have "insort_key k x (spec_dedup (filter (\<lambda>p. date p \<noteq> date x) ys))
                 = x # spec_dedup (filter (\<lambda>p. date p \<noteq> date x) ys)"
        by (rule insort_is_Cons)
      moreover have "spec_dedup (insort_key k x ys)
                     = x # spec_dedup (filter (\<lambda>p. date p \<noteq> date x) ys)"
        using True Cons by simp
      ultimately show ?thesis by simp
    next
      case False
      then have ne: "date y \<noteq> date x" using key[of y x] by auto
      let ?fy = "filter (\<lambda>p. date p \<noteq> date y) ys'"
      have len: "length ?fy < length ys" using Cons by (simp add: less_Suc_eq_le)
      have sfy: "sorted (map k ?fy)" using s' by (rule sorted_filter)
      have "spec_dedup (insort_key k x ys) = y # spec_dedup (filter (\<lambda>p. date p \<noteq> date y) (insort_key k x ys'))"
        using False Cons by simp
      also have "filter (\<lambda>p. date p \<noteq> date y) (insort_key k x ys') = insort_key k x ?fy"
        using s' ne by (simp add: filter_insort)
      also have "spec_dedup (insort_key k x ?fy)
                 = insort_key k x (spec_dedup (filter (\<lambda>p. date p \<noteq> date x) ?fy))"
        by (rule less.hyps[OF len sfy])
      finally have l: "spec_dedup (insort_key k x ys)
          = y # insort_key k x (spec_dedup (filter (\<lambda>p. date p \<noteq> date x) ?fy))" .
      have "insort_key k x (spec_dedup (filter (\<lambda>p. date p \<noteq> date x) ys))
            = insort_key k x (y # spec_dedup (filter (\<lambda>p. date p \<noteq> date y)
                                   (filter (\<lambda>p. date p \<noteq> date x) ys')))"
        using ne Cons by simp
      also have "\<dots> = y # insort_key k x (spec_dedup (filter (\<lambda>p. date p \<noteq> date y)
                                   (filter (\<lambda>p. date p \<noteq> date x) ys')))"
        using False by simp
      finally show ?thesis using l by (simp only: filter_date_commute[of "date x" "date y"])
    qed
  qed
qed

lemma spec_dedup_sort_key:
  assumes key: "\<And>p q. date p = date q \<Longrightarrow> k p = k q"
  shows "spec_dedup (sort_key k xs) = sort_key k (spec_dedup xs)"
proof (induction "length xs" arbitrary: xs rule: less_induct)
  case less
  show ?case
  proof (cases xs)
    case Nil
    then show ?thesis by simp
  next
    case (Cons x xs')
    let ?f = "filter (\<lambda>p. date p \<noteq> date x) xs'"
    have len: "length ?f < length xs" using Cons by (simp add: less_Suc_eq_le)
    have "spec_dedup (sort_key k xs) = spec_dedup (insort_key k x (sort_key k xs'))"
      using Cons by simp
    also have "\<dots> = insort_key k x (spec_dedup (filter (\<lambda>p. date p \<noteq> date x) (sort_key k xs')))"
      by (rule spec_dedup_insort[OF key]) simp_all
    also have "filter (\<lambda>p. date p \<noteq> date x) (sort_key k xs') = sort_key k ?f"
      by (rule filter_sort)
    also have "spec_dedup (sort_key k ?f) = sort_key k (spec_dedup ?f)"
      by (rule less.hyps[OF len])
    finally show ?thesis using Cons by simp
  qed
qed

lemma date_key_cong: "date p = date q \<Longrightarrow> date_key rt p = date_key rt q"
  by (simp add: date_key_def)


lemma find_filter_hd: "find P xs = (case filter P xs of [] \<Rightarrow> None | y # _ \<Rightarrow> Some y)"
  by (induction xs) auto

lemma filter_date_sort_key:
  "filter (\<lambda>q. date q = d) (sort_key (date_key rt) xs) = filter (\<lambda>q. date q = d) xs"
proof -
  define c where "c = date_key rt \<lparr>date = d, price = []\<rparr>"
  have e: "\<And>zs. filter (\<lambda>q. date q = d) zs
                = filter (\<lambda>q. date q = d) (filter (\<lambda>q. date_key rt q = c) zs)"
  proof -
    fix zs :: "PricePoint list"
    have "\<And>q. (date_key rt q = c \<and> date q = d) = (date q = d)"
      by (auto simp: c_def date_key_def)
    then show "filter (\<lambda>q. date q = d) zs
               = filter (\<lambda>q. date q = d) (filter (\<lambda>q. date_key rt q = c) zs)"
      by simp
  qed
  have "filter (\<lambda>q. date q = d) (sort_key (date_key rt) xs)
        = filter (\<lambda>q. date q = d) (filter (\<lambda>q. date_key rt q = c) (sort_key (date_key rt) xs))"
    by (rule e)
  also have "\<dots> = filter (\<lambda>q. date q = d) (filter (\<lambda>q. date_key rt q = c) xs)"
    by (simp only: sort_key_stable)
  also have "\<dots> = filter (\<lambda>q. date q = d) xs" by (rule e[symmetric])
  finally show ?thesis .
qed

lemma spec_dedup_first:
  "p \<in> set (spec_dedup xs) \<Longrightarrow> find (\<lambda>q. date q = date p) xs = Some p"
proof (induction xs rule: spec_dedup.induct)
  case 1
  then show ?case by simp
next
  case (2 x xs)
  show ?case
  proof (cases "p = x")
    case True
    then show ?thesis by simp
  next
    case False
    let ?f = "filter (\<lambda>q. date q \<noteq> date x) xs"
    from "2.prems" False have m: "p \<in> set (spec_dedup ?f)" by simp
    then have "p \<in> set ?f" using set_spec_dedup by blast
    then have ne: "date p \<noteq> date x" by simp
    have "filter (\<lambda>q. date q = date p) ?f = filter (\<lambda>q. date q = date p) xs"
      using ne by (induction xs) auto
    then have "find (\<lambda>q. date q = date p) ?f = find (\<lambda>q. date q = date p) xs"
      by (simp add: find_filter_hd)
    with "2.IH"[OF m] ne show ?thesis by auto
  qed
qed

lemma mergeSeries_spec:
  assumes "dates_parse rt (existing @ incoming)"
  shows "mergeSeries rt existing incoming
         = spec_dedup (sort_key (date_key rt) (existing @ incoming))"
  using assms by (simp add: mergeSeries_def removeDuplicates_spec array_sort_by_date)

lemma mergeSeries_dates:
  "distinct (map date (mergeSeries rt existing incoming))
   \<and> date ` set (mergeSeries rt existing incoming) = date ` set (existing @ incoming)"
  by (simp add: mergeSeries_def removeDuplicates_spec distinct_spec_dedup dates_spec_dedup
      set_array_sort del: set_append)

text \<open>A host in the UTC zone that reads no date format beyond \<^verbatim>\<open>YYYY-MM-DD\<close>.\<close>

definition utc_host :: runtime where
  "utc_host = \<lparr>LocalTZA = (\<lambda>t u. 0), otherDateParse = (\<lambda>s. None),
                NumberToString = (\<lambda>x. [])\<rparr>"

text \<open>
  C2. For every existing series and every incoming sequence, the merged series has no two
  points of one date and has a point for every date of the two inputs. Where all dates
  parse, it is the concatenation (existing first), sorted ascending by date and with the
  first point of every date kept: it is ascending by date, and the point it keeps for a
  date is the first point of that date in the concatenation.
\<close>

theorem merge_sorts_and_dedups:
  "distinct (map date (mergeSeries rt existing incoming))
   \<and> date ` set (mergeSeries rt existing incoming) = date ` set (existing @ incoming)
   \<and> (dates_parse rt (existing @ incoming) \<longrightarrow>
        mergeSeries rt existing incoming
          = spec_dedup (spec_sort_by_date rt (existing @ incoming))
        \<and> sorted (map (date_key rt) (mergeSeries rt existing incoming))
        \<and> (\<forall>p \<in> set (mergeSeries rt existing incoming).
               find (\<lambda>q. date q = date p) (existing @ incoming) = Some p))"
proof -
  let ?all = "existing @ incoming"
  let ?m = "mergeSeries rt existing incoming"
  have "?m = spec_dedup (spec_sort_by_date rt ?all)
        \<and> sorted (map (date_key rt) ?m)
        \<and> (\<forall>p \<in> set ?m. find (\<lambda>q. date q = date p) ?all = Some p)"
    if v: "dates_parse rt ?all"
  proof -
    have e: "?m = spec_dedup (sort_key (date_key rt) ?all)" by (rule mergeSeries_spec[OF v])
    have s: "sorted (map (date_key rt) ?m)"
      unfolding e by (rule sorted_spec_dedup) simp
    have f: "find (\<lambda>q. date q = date p) ?all = Some p" if "p \<in> set ?m" for p
    proof -
      from that have "find (\<lambda>q. date q = date p) (sort_key (date_key rt) ?all) = Some p"
        unfolding e by (rule spec_dedup_first)
      then show ?thesis by (simp only: find_filter_hd filter_date_sort_key)
    qed
    from e s f show ?thesis by (simp add: spec_sort_by_date_def)
  qed
  with mergeSeries_dates[of rt existing incoming] show ?thesis by blast
qed

text \<open>
  An existing series out of order and an incoming one that brings a second point for
  2026-01-03.
\<close>

definition jan_existing :: "PricePoint list" where
  "jan_existing =
     [\<lparr>date = ''2026-01-03'', price = ''0.300000''\<rparr>,
      \<lparr>date = ''2026-01-01'', price = ''0.100000''\<rparr>]"

definition jan_incoming :: "PricePoint list" where
  "jan_incoming =
     [\<lparr>date = ''2026-01-02'', price = ''0.200000''\<rparr>,
      \<lparr>date = ''2026-01-03'', price = ''0.999999''\<rparr>]"

theorem merge_sorts_and_dedups_witness:
  "dates_parse utc_host (jan_existing @ jan_incoming)
   \<and> mergeSeries utc_host jan_existing jan_incoming
     = [\<lparr>date = ''2026-01-01'', price = ''0.100000''\<rparr>,
        \<lparr>date = ''2026-01-02'', price = ''0.200000''\<rparr>,
        \<lparr>date = ''2026-01-03'', price = ''0.300000''\<rparr>]
   \<and> sorted (map (date_key utc_host) (mergeSeries utc_host jan_existing jan_incoming))
   \<and> \<lparr>date = ''2026-01-03'', price = ''0.300000''\<rparr>
       \<in> set (mergeSeries utc_host jan_existing jan_incoming)
   \<and> find (\<lambda>q. date q = ''2026-01-03'') (jan_existing @ jan_incoming)
       = Some \<lparr>date = ''2026-01-03'', price = ''0.300000''\<rparr>"
proof -
  let ?p = "\<lparr>date = ''2026-01-03'', price = ''0.300000''\<rparr>"
  have v: "dates_parse utc_host (jan_existing @ jan_incoming)" by code_simp
  have m: "mergeSeries utc_host jan_existing jan_incoming
           = [\<lparr>date = ''2026-01-01'', price = ''0.100000''\<rparr>,
              \<lparr>date = ''2026-01-02'', price = ''0.200000''\<rparr>,
              \<lparr>date = ''2026-01-03'', price = ''0.300000''\<rparr>]"
    by code_simp
  have i: "?p \<in> set (mergeSeries utc_host jan_existing jan_incoming)"
    unfolding m by simp
  note t = merge_sorts_and_dedups[of utc_host jan_existing jan_incoming]
  from t v have s: "sorted (map (date_key utc_host) (mergeSeries utc_host jan_existing jan_incoming))"
    by blast
  from t v have "\<forall>p \<in> set (mergeSeries utc_host jan_existing jan_incoming).
                   find (\<lambda>q. date q = date p) (jan_existing @ jan_incoming) = Some p"
    by blast
  from bspec[OF this i]
  have f: "find (\<lambda>q. date q = ''2026-01-03'') (jan_existing @ jan_incoming) = Some ?p"
    by simp
  from v m s i f show ?thesis by (intro conjI)
qed

text \<open>
  C9. For every series whose dates parse, merging it with the empty sequence is sorting by
  date what is left of it once the later points of every date are removed.
\<close>

theorem merge_empty_incoming:
  assumes "dates_parse rt S"
  shows "mergeSeries rt S [] = spec_sort_by_date rt (spec_dedup S)"
proof -
  have "mergeSeries rt S [] = spec_dedup (sort_key (date_key rt) S)"
    using mergeSeries_spec[of rt S "[]"] assms by simp
  also have "\<dots> = sort_key (date_key rt) (spec_dedup S)"
    by (rule spec_dedup_sort_key) (rule date_key_cong)
  finally show ?thesis by (simp add: spec_sort_by_date_def)
qed

theorem merge_empty_incoming_witness:
  "dates_parse utc_host (jan_existing @ jan_incoming)
   \<and> mergeSeries utc_host (jan_existing @ jan_incoming) []
     = spec_sort_by_date utc_host (spec_dedup (jan_existing @ jan_incoming))
   \<and> spec_sort_by_date utc_host (spec_dedup (jan_existing @ jan_incoming))
     = [\<lparr>date = ''2026-01-01'', price = ''0.100000''\<rparr>,
        \<lparr>date = ''2026-01-02'', price = ''0.200000''\<rparr>,
        \<lparr>date = ''2026-01-03'', price = ''0.300000''\<rparr>]"
proof -
  have v: "dates_parse utc_host (jan_existing @ jan_incoming)" by code_simp
  have r: "spec_sort_by_date utc_host (spec_dedup (jan_existing @ jan_incoming))
           = [\<lparr>date = ''2026-01-01'', price = ''0.100000''\<rparr>,
              \<lparr>date = ''2026-01-02'', price = ''0.200000''\<rparr>,
              \<lparr>date = ''2026-01-03'', price = ''0.300000''\<rparr>]"
    by code_simp
  from v merge_empty_incoming[OF v] r show ?thesis by (intro conjI)
qed


section \<open>The batch fetcher\<close>

definition START_DATE :: string where
  "START_DATE = ''2026-01-01''"

definition batchSize :: int where
  "batchSize = 1000"

text \<open>
  A Number as \<^verbatim>\<open>toFixed\<close> sees it: a finite value, held exactly, NaN or an infinity.
\<close>

datatype jsnum = Fin rat | NaN | PosInf | NegInf

text \<open>
  A candle as the script reads it: \<open>openTime\<close> is \<^verbatim>\<open>parseInt(candle[0])\<close>, an integer or
  NaN, and \<open>openPrice\<close> is \<^verbatim>\<open>parseFloat(candle[1])\<close>.
\<close>

record candle =
  openTime :: jsint
  openPrice :: jsnum

text \<open>The decimal digits of a natural number.\<close>

function decimal :: "int \<Rightarrow> string" where
  "decimal n = (if n < 10 then [digit_char n] else decimal (n div 10) @ [digit_char n])"
  by pat_completeness auto
termination
  by (relation "measure nat") auto

declare decimal.simps [simp del]

text \<open>
  \<^verbatim>\<open>x.toFixed(6)\<close>: the integer \<open>n\<close> nearest to \<open>x * 10\<^sup>6\<close> (the larger of two), its digits
  padded with zeros to seven at least, a point before the last six.
\<close>

definition toFixed6 :: "runtime \<Rightarrow> jsnum \<Rightarrow> string" where
  "toFixed6 rt v =
     (case v of
        NaN \<Rightarrow> ''NaN''
      | PosInf \<Rightarrow> ''Infinity''
      | NegInf \<Rightarrow> ''-Infinity''
      | Fin x \<Rightarrow>
          (let s = (if x < 0 then ''-'' else '''');
               a = \<bar>x\<bar>
           in if a \<ge> 10 ^ 21 then s @ NumberToString rt a
              else (let n = \<lfloor>a * 10 ^ 6 + 1 / 2\<rfloor>;
                        m = decimal n;
                        m' = (if length m \<le> 6 then replicate (7 - length m) CHR ''0'' @ m else m);
                        k = length m'
                    in s @ take (k - 6) m' @ ''.'' @ drop (k - 6) m')))"

text \<open>\<^verbatim>\<open>new Date(v)\<close> for a number \<open>v\<close>.\<close>

fun Date_of_number :: "jsint \<Rightarrow> jsdate" where
  "Date_of_number None = None"
| "Date_of_number (Some t) = TimeClip t"

text \<open>
  Lines 158 to 170: the point a candle stands for. \<^verbatim>\<open>toISOString\<close> raises RangeError on
  an Invalid Date.
\<close>

definition candle_point :: "runtime \<Rightarrow> candle \<Rightarrow> error + PricePoint" where
  "candle_point rt c =
     (case toISOString (Date_of_number (openTime c)) of
        Inl e \<Rightarrow> Inl e
      | Inr isoString \<Rightarrow> Inr \<lparr>date = split_T0 isoString, price = toFixed6 rt (openPrice c)\<rparr>)"

text \<open>
  What one run of \<^verbatim>\<open>fetchHistoricalData\<close> changes: the array \<open>newData\<close>, the caller's
  set \<open>existingDates\<close> (mutated in place), the requests sent to the exchange, and the errors
  its \<^verbatim>\<open>catch\<close> has logged.
\<close>

record fetch_state =
  newData :: "PricePoint list"
  existingDates :: "string set"
  requests :: "(jsint \<times> jsint) list"
  caught :: "error list"

definition each_candle :: "runtime \<Rightarrow> fetch_state \<Rightarrow> candle \<Rightarrow> error + fetch_state" where
  "each_candle rt st c =
     (case candle_point rt c of
        Inl e \<Rightarrow> Inl e
      | Inr p \<Rightarrow>
          (if date p \<notin> existingDates st \<and> \<not> str_lt (date p) START_DATE
           then Inr (st\<lparr>newData := newData st @ [p],
                        existingDates := insert (date p) (existingDates st)\<rparr>)
           else Inr st))"

text \<open>
  \<^verbatim>\<open>klines.forEach\<close>: an exception ends the loop, and what the earlier candles pushed
  stays.
\<close>

fun forEach_candle :: "runtime \<Rightarrow> fetch_state \<Rightarrow> candle list \<Rightarrow> fetch_state \<times> error option" where
  "forEach_candle rt st [] = (st, None)"
| "forEach_candle rt st (c # cs) =
     (case each_candle rt st c of
        Inl e \<Rightarrow> (st, Some e)
      | Inr st' \<Rightarrow> forEach_candle rt st' cs)"

text \<open>
  The exchange: its answer to the \<open>k\<close>-th request of a run, for the request's start and end
  time. \<^verbatim>\<open>fetchKlines\<close> throws on a response that is not ok.
\<close>

type_synonym upstream = "nat \<Rightarrow> jsint \<Rightarrow> jsint \<Rightarrow> error + candle list"

text \<open>
  The body of the \<^verbatim>\<open>while\<close> loop but for its last line. The pause of 200 ms between
  windows changes no state and is left out.
\<close>

definition window_body :: "runtime \<Rightarrow> upstream \<Rightarrow> jsdate \<Rightarrow> jsdate \<Rightarrow> fetch_state \<Rightarrow> fetch_state" where
  "window_body rt up endDate currentStart st =
     (let batchEnd0 = setDate rt currentStart (num_add (getDate rt currentStart) (batchSize - 1));
          batchEnd = (if date_gt batchEnd0 endDate then setTime endDate else batchEnd0);
          startTime = Date_of_number (Date_UTC (getUTCFullYear currentStart)
                        (getUTCMonth currentStart) (getUTCDate currentStart) 0 0 0 0);
          endTime = Date_of_number (Date_UTC (getUTCFullYear batchEnd)
                        (getUTCMonth batchEnd) (getUTCDate batchEnd) 23 59 59 999);
          st1 = st\<lparr>requests := requests st @ [(startTime, endTime)]\<rparr>
      in case up (length (requests st)) startTime endTime of
           Inl e \<Rightarrow> st1\<lparr>caught := caught st1 @ [e]\<rparr>
         | Inr klines \<Rightarrow>
             (case forEach_candle rt st1 klines of
                (st2, None) \<Rightarrow> st2
              | (st2, Some e) \<Rightarrow> st2\<lparr>caught := caught st2 @ [e]\<rparr>))"

subsection \<open>The window loop ends\<close>

lemma withDate_shift: "withDate t (DateFromTime t + n) = t + n * msPerDay"
proof -
  have "MakeDate (Day t + n) (TimeWithinDay t) = t div msPerDay * msPerDay + t mod msPerDay + n * msPerDay"
    by (simp add: MakeDate_def Day_def TimeWithinDay_def algebra_simps)
  also have "\<dots> = t + n * msPerDay" by simp
  finally show ?thesis by (simp only: withDate_def MakeDay_shift)
qed

lemma offset_bounds: "- msPerDay \<le> offset rt t u \<and> offset rt t u \<le> msPerDay"
  by (simp add: offset_def msPerDay_def)

lemma setDate_getDate:
  "setDate rt (Some t) (num_add (getDate rt (Some t)) n)
   = TimeClip (UTC rt (LocalTime rt t + n * msPerDay))"
  by (simp add: withDate_shift)

lemma setDate_advances:
  assumes "setDate rt (Some t) (num_add (getDate rt (Some t)) batchSize) = Some t'"
  shows "t < t'"
proof -
  let ?l = "LocalTime rt t + batchSize * msPerDay"
  from assms have "TimeClip (UTC rt ?l) = Some t'" by (simp only: setDate_getDate)
  then have e: "t' = UTC rt ?l" by (simp add: TimeClip_def split: if_splits)
  have "t - msPerDay \<le> LocalTime rt t"
    using offset_bounds[of rt t True] by (simp add: LocalTime_def)
  moreover have "?l - msPerDay \<le> UTC rt ?l"
    using offset_bounds[of rt ?l False] by (simp add: UTC_def)
  ultimately show ?thesis unfolding e by (simp add: batchSize_def msPerDay_def)
qed

function fetch_windows ::
  "runtime \<Rightarrow> upstream \<Rightarrow> jsdate \<Rightarrow> jsdate \<Rightarrow> fetch_state \<Rightarrow> fetch_state" where
  "fetch_windows rt up endDate currentStart st =
     (if date_le currentStart endDate
      then fetch_windows rt up endDate
             (setDate rt currentStart (num_add (getDate rt currentStart) batchSize))
             (window_body rt up endDate currentStart st)
      else st)"
  by pat_completeness auto
termination
proof (relation "measure (\<lambda>(rt, up, endDate, currentStart, st).
         (case (currentStart, endDate) of
            (Some c, Some e) \<Rightarrow> (if c \<le> e then nat (e - c) + 1 else 0)
          | _ \<Rightarrow> 0))")
  show "wf (measure (\<lambda>(rt, up, endDate, currentStart, st).
         (case (currentStart, endDate) of
            (Some c, Some e) \<Rightarrow> (if c \<le> e then nat (e - c) + 1 else 0)
          | _ \<Rightarrow> 0)))" by simp
next
  fix rt :: runtime and up :: upstream and endDate currentStart :: jsdate and st :: fetch_state
  assume le: "date_le currentStart endDate"
  then obtain c e where c: "currentStart = Some c" and e: "endDate = Some e" and ce: "c \<le> e"
    by (cases currentStart; cases endDate) auto
  let ?next = "setDate rt currentStart (num_add (getDate rt currentStart) batchSize)"
  show "((rt, up, endDate, ?next, window_body rt up endDate currentStart st),
         (rt, up, endDate, currentStart, st))
        \<in> measure (\<lambda>(rt, up, endDate, currentStart, st).
             (case (currentStart, endDate) of
                (Some c, Some e) \<Rightarrow> (if c \<le> e then nat (e - c) + 1 else 0)
              | _ \<Rightarrow> 0))"
  proof (cases ?next)
    case None
    then show ?thesis using c e ce by simp
  next
    case (Some c')
    then have "c < c'" using setDate_advances[of rt c c'] c by simp
    then show ?thesis using Some c e ce by simp
  qed
qed

declare fetch_windows.simps [simp del]

text \<open>
  \<^verbatim>\<open>fetchHistoricalData(startDate, endDate, existingDates)\<close>; the result is the array
  \<open>newData\<close> of the final state.
\<close>

definition fetchHistoricalData ::
  "runtime \<Rightarrow> upstream \<Rightarrow> jsdate \<Rightarrow> jsdate \<Rightarrow> string set \<Rightarrow> fetch_state" where
  "fetchHistoricalData rt up startDate endDate dates =
     fetch_windows rt up endDate startDate
       \<lparr>newData = [], existingDates = dates, requests = [], caught = []\<rparr>"


subsection \<open>What the fetcher emits\<close>

text \<open>
  The invariant of a run started with the exclusion set \<open>dates\<close>: every point emitted so
  far is on or after the start date, outside \<open>dates\<close> and recorded in the growing set; no
  two emitted points share a date; the growing set still holds \<open>dates\<close>.
\<close>

definition fresh :: "string set \<Rightarrow> fetch_state \<Rightarrow> bool" where
  "fresh dates st =
     ((\<forall>p \<in> set (newData st).
         \<not> str_lt (date p) START_DATE \<and> date p \<notin> dates \<and> date p \<in> existingDates st)
      \<and> distinct (map date (newData st))
      \<and> dates \<subseteq> existingDates st)"

lemma fresh_requests [simp]: "fresh dates (st\<lparr>requests := r\<rparr>) = fresh dates st"
  by (simp add: fresh_def)

lemma fresh_caught [simp]: "fresh dates (st\<lparr>caught := r\<rparr>) = fresh dates st"
  by (simp add: fresh_def)

lemma each_candle_fresh:
  assumes "fresh dates st" and "each_candle rt st c = Inr st'"
  shows "fresh dates st'"
proof (cases "candle_point rt c")
  case (Inl e)
  with assms(2) show ?thesis by (simp add: each_candle_def)
next
  case (Inr p)
  show ?thesis
  proof (cases "date p \<notin> existingDates st \<and> \<not> str_lt (date p) START_DATE")
    case False
    with Inr assms show ?thesis by (auto simp: each_candle_def)
  next
    case True
    with Inr assms(2) have e: "st' = st\<lparr>newData := newData st @ [p],
        existingDates := insert (date p) (existingDates st)\<rparr>"
      by (auto simp: each_candle_def)
    from True assms(1) have "date p \<notin> dates" by (auto simp: fresh_def)
    moreover from True assms(1) have "date p \<notin> date ` set (newData st)"
      by (auto simp: fresh_def)
    ultimately show ?thesis using assms(1) True unfolding e fresh_def by auto
  qed
qed

lemma forEach_candle_fresh:
  "fresh dates st \<Longrightarrow> fresh dates (fst (forEach_candle rt st cs))"
proof (induction cs arbitrary: st)
  case Nil
  then show ?case by simp
next
  case (Cons c cs)
  show ?case
  proof (cases "each_candle rt st c")
    case (Inl e)
    with Cons.prems show ?thesis by simp
  next
    case (Inr st')
    with Cons.prems have "fresh dates st'" by (simp add: each_candle_fresh)
    with Inr Cons.IH show ?thesis by simp
  qed
qed

lemma window_body_fresh:
  assumes "fresh dates st"
  shows "fresh dates (window_body rt up endDate currentStart st)"
proof -
  have "fresh dates (case forEach_candle rt (st\<lparr>requests := r\<rparr>) ks of
                 (st2, None) \<Rightarrow> st2
               | (st2, Some e) \<Rightarrow> st2\<lparr>caught := caught st2 @ [e]\<rparr>)" for r ks
  proof -
    have "fresh dates (fst (forEach_candle rt (st\<lparr>requests := r\<rparr>) ks))"
      using assms by (simp add: forEach_candle_fresh)
    then show ?thesis
      by (cases "forEach_candle rt (st\<lparr>requests := r\<rparr>) ks") (auto split: option.splits)
  qed
  with assms show ?thesis
    by (simp add: window_body_def Let_def split: sum.splits)
qed

lemma fetch_windows_fresh:
  "fresh dates st \<Longrightarrow> fresh dates (fetch_windows rt up endDate currentStart st)"
proof (induction rt up endDate currentStart st rule: fetch_windows.induct)
  case (1 rt up endDate currentStart st)
  show ?case
  proof (cases "date_le currentStart endDate")
    case True
    have "fresh dates (window_body rt up endDate currentStart st)"
      using "1.prems" by (rule window_body_fresh)
    with "1.IH"[OF True] True show ?thesis by (subst fetch_windows.simps) simp
  next
    case False
    with "1.prems" show ?thesis by (subst fetch_windows.simps) simp
  qed
qed

lemma fetchHistoricalData_fresh:
  "fresh dates (fetchHistoricalData rt up startDate endDate dates)"
  unfolding fetchHistoricalData_def
  by (rule fetch_windows_fresh) (simp add: fresh_def)

text \<open>
  An exchange that answers every request with the same five candles: one of 2025-12-31,
  two of 2026-01-01, one of 2026-01-02 and one of 2026-01-03.
\<close>

definition five_candles :: upstream where
  "five_candles k startTime endTime =
     Inr [\<lparr>openTime = Some 1767139200000, openPrice = Fin (1 / 2)\<rparr>,
          \<lparr>openTime = Some 1767225600000, openPrice = Fin (1 / 4)\<rparr>,
          \<lparr>openTime = Some 1767225600000, openPrice = Fin (3 / 4)\<rparr>,
          \<lparr>openTime = Some 1767312000000, openPrice = Fin (1 / 8)\<rparr>,
          \<lparr>openTime = Some 1767398400000, openPrice = Fin 2\<rparr>]"

lemma five_candles_run:
  "newData (fetchHistoricalData utc_host five_candles (Some 1767225600000)
              (Some 1767441600000) (set [''2026-01-02'']))
   = [\<lparr>date = ''2026-01-01'', price = ''0.250000''\<rparr>,
      \<lparr>date = ''2026-01-03'', price = ''2.000000''\<rparr>]"
  by code_simp

subsection \<open>A sync cycle keeps the stored points\<close>

lemma disjoint_map: "\<forall>p \<in> set ys. f p \<notin> A \<Longrightarrow> A \<inter> set (map f ys) = {}"
  by auto

lemma distinct_map_array_sort:
  "distinct (map f (array_sort c xs)) = distinct (map f xs)"
proof -
  have "mset (map f (array_sort c xs)) = mset (map f xs)"
    by (simp add: mset_array_sort)
  then show ?thesis by (rule mset_eq_imp_distinct_iff)
qed

text \<open>
  C10. The exclusion set of a sync cycle is the set of the existing dates. For a stored
  series with one point a date (the invariant of the stored series), every existing point
  is a point of the merged series, whatever the exchange answers.
\<close>

theorem existing_points_survive:
  assumes "distinct (map date existing)"
  shows "set existing
         \<subseteq> set (mergeSeries rt existing
                  (newData (fetchHistoricalData rt up startDate endDate
                              (set (map date existing)))))"
proof -
  let ?new = "newData (fetchHistoricalData rt up startDate endDate (set (map date existing)))"
  note f = fetchHistoricalData_fresh[of "set (map date existing)" rt up startDate endDate,
      unfolded fresh_def]
  from f have "\<forall>p \<in> set ?new. date p \<notin> set (map date existing)" by blast
  then have "set (map date existing) \<inter> set (map date ?new) = {}"
    by (rule disjoint_map)
  moreover from f have "distinct (map date ?new)" by blast
  ultimately have "distinct (map date (existing @ ?new))" using assms by simp
  then have "distinct (map date (array_sort (by_date rt) (existing @ ?new)))"
    by (simp only: distinct_map_array_sort)
  then have "mergeSeries rt existing ?new = array_sort (by_date rt) (existing @ ?new)"
    by (simp add: mergeSeries_def removeDuplicates_spec spec_dedup_distinct_id)
  then show ?thesis by (simp add: set_array_sort)
qed

theorem existing_points_survive_witness:
  "distinct (map date [\<lparr>date = ''2026-01-02'', price = ''0.500000''\<rparr>])
   \<and> set [\<lparr>date = ''2026-01-02'', price = ''0.500000''\<rparr>]
       \<subseteq> set (mergeSeries utc_host [\<lparr>date = ''2026-01-02'', price = ''0.500000''\<rparr>]
                (newData (fetchHistoricalData utc_host five_candles (Some 1767225600000)
                   (Some 1767441600000)
                   (set (map date [\<lparr>date = ''2026-01-02'', price = ''0.500000''\<rparr>])))))
   \<and> mergeSeries utc_host [\<lparr>date = ''2026-01-02'', price = ''0.500000''\<rparr>]
         (newData (fetchHistoricalData utc_host five_candles (Some 1767225600000)
            (Some 1767441600000)
            (set (map date [\<lparr>date = ''2026-01-02'', price = ''0.500000''\<rparr>]))))
       = [\<lparr>date = ''2026-01-01'', price = ''0.250000''\<rparr>,
          \<lparr>date = ''2026-01-02'', price = ''0.500000''\<rparr>,
          \<lparr>date = ''2026-01-03'', price = ''2.000000''\<rparr>]"
proof -
  let ?ex = "[\<lparr>date = ''2026-01-02'', price = ''0.500000''\<rparr>]"
  have a: "distinct (map date ?ex)" by simp
  have b: "mergeSeries utc_host ?ex
             (newData (fetchHistoricalData utc_host five_candles (Some 1767225600000)
                (Some 1767441600000) (set (map date ?ex))))
           = [\<lparr>date = ''2026-01-01'', price = ''0.250000''\<rparr>,
              \<lparr>date = ''2026-01-02'', price = ''0.500000''\<rparr>,
              \<lparr>date = ''2026-01-03'', price = ''2.000000''\<rparr>]"
    by code_simp
  from a existing_points_survive[OF a, of utc_host five_candles "Some 1767225600000"
      "Some 1767441600000"] b
  show ?thesis by (intro conjI)
qed


section \<open>Digits\<close>

lemma of_char_digit_char: "of_char (digit_char d) = (48 + d mod 10 :: int)"
proof -
  have "0 \<le> d mod 10" "d mod 10 < 10" by simp_all
  then have "(48 + d mod 10) mod 256 = 48 + d mod 10" by (simp add: mod_pos_pos_trivial)
  then show ?thesis by (simp add: digit_char_def)
qed

lemma is_digit_digit_char: "is_digit (digit_char d)"
proof -
  have "0 \<le> d mod 10" "d mod 10 < 10" by simp_all
  then show ?thesis by (simp add: is_digit_def of_char_digit_char)
qed

lemma is_digit_not_T: "is_digit c \<Longrightarrow> c \<noteq> CHR ''T''"
  by (auto simp: is_digit_def)

lemma length_pad [simp]: "length (pad k n) = k"
  by (induction k arbitrary: n) auto

lemma is_digit_pad: "list_all is_digit (pad k n)"
  by (induction k arbitrary: n) (auto simp: is_digit_digit_char)

lemma digits_val_snoc: "digits_val (s @ [c]) = 10 * digits_val s + (of_char c - 48)"
  by (simp add: digits_val_def)

lemma digits_val_pad: "digits_val (pad k n) = n mod 10 ^ k"
proof (induction k arbitrary: n)
  case 0
  then show ?case by (simp add: digits_val_def)
next
  case (Suc k)
  have "digits_val (pad (Suc k) n) = 10 * (n div 10 mod 10 ^ k) + n mod 10"
    by (simp add: digits_val_snoc Suc of_char_digit_char)
  also have "\<dots> = n mod (10 * 10 ^ k)"
    using zmod_zmult2_eq[of "10 ^ k" n 10] by simp
  finally show ?case by simp
qed

lemma digits_val_zeros: "digits_val (replicate k CHR ''0'' @ s) = digits_val s"
proof -
  have "foldl (\<lambda>a c. 10 * a + (of_char c - 48)) 0 (replicate k CHR ''0'') = (0::int)"
    by (induction k) simp_all
  then show ?thesis by (simp add: digits_val_def)
qed

lemma decimal_digits:
  "0 \<le> n \<Longrightarrow> list_all is_digit (decimal n) \<and> decimal n \<noteq> [] \<and> digits_val (decimal n) = n"
proof (induction n rule: decimal.induct)
  case (1 n)
  show ?case
  proof (cases "n < 10")
    case True
    with "1.prems" have "n mod 10 = n" by simp
    with True show ?thesis
      by (subst (1 2 3) decimal.simps)
         (simp add: is_digit_digit_char digits_val_def of_char_digit_char)
  next
    case False
    then have "0 \<le> n div 10" by simp
    with "1.IH" False
    have ih: "list_all is_digit (decimal (n div 10))" "digits_val (decimal (n div 10)) = n div 10"
      by simp_all
    from False ih show ?thesis
      by (subst (1 2 3) decimal.simps)
         (simp add: is_digit_digit_char digits_val_snoc of_char_digit_char)
  qed
qed


section \<open>From a candle to a point\<close>

subsection \<open>The year of a time value\<close>

lemma Day_next: "Day (t + msPerDay) = Day t + 1"
  by (simp add: Day_def msPerDay_def)

lemma day_start: "Day t * msPerDay = t - t mod msPerDay"
  by (simp add: Day_def minus_mod_eq_div_mult)

lemma mod_day_bounds: "0 \<le> t mod msPerDay \<and> t mod msPerDay < msPerDay"
  by (simp add: msPerDay_def)

lemma DayFromYear_1970: "DayFromYear 1970 = 0"
  by (simp add: DayFromYear_def)

lemma DayFromYear_upper: "0 \<le> k \<Longrightarrow> DayFromYear (1970 + k) \<le> 366 * k"
proof (induction k rule: int_ge_induct)
  case base
  then show ?case by (simp add: DayFromYear_1970)
next
  case (step i)
  have "DayFromYear (1970 + (i + 1)) = DayFromYear (1970 + i) + DaysInYear (1970 + i)"
    using DayFromYear_step[of "1970 + i"] by (simp add: add.assoc)
  with step.IH DaysInYear_cases[of "1970 + i"] show ?case by auto
qed

lemma DayFromYear_upper_neg: "k \<le> 0 \<Longrightarrow> DayFromYear (1970 + k) \<le> 365 * k"
proof (induction k rule: int_le_induct)
  case base
  then show ?case by (simp add: DayFromYear_1970)
next
  case (step i)
  have "DayFromYear (1970 + (i - 1) + 1) = DayFromYear (1970 + (i - 1)) + DaysInYear (1970 + (i - 1))"
    by (rule DayFromYear_step)
  then have "DayFromYear (1970 + i) = DayFromYear (1970 + (i - 1)) + DaysInYear (1970 + (i - 1))"
    by simp
  with step.IH DaysInYear_cases[of "1970 + (i - 1)"] show ?case by auto
qed

lemma DayFromYear_mono: "a \<le> b \<Longrightarrow> DayFromYear a \<le> DayFromYear b"
proof (induction b rule: int_ge_induct)
  case base
  then show ?case by simp
next
  case (step i)
  with DayFromYear_less_step[of i] show ?case by simp
qed

lemma year_search_spec:
  "DayFromYear y \<le> d \<Longrightarrow>
   DayFromYear (year_search d y) \<le> d \<and> d < DayFromYear (year_search d y + 1)"
proof (induction d y rule: year_search.induct)
  case (1 d y)
  show ?case
  proof (cases "DayFromYear (y + 1) \<le> d")
    case True
    with "1.IH" show ?thesis by (subst (1 2) year_search.simps) simp
  next
    case False
    with "1.prems" show ?thesis by (subst (1 2) year_search.simps) simp
  qed
qed

text \<open>\<^verbatim>\<open>YearFromTime(t)\<close> is the year whose days hold the day of \<open>t\<close>.\<close>

lemma YearFromTime_spec:
  "DayFromYear (YearFromTime t) \<le> Day t \<and> Day t < DayFromYear (YearFromTime t + 1)"
proof -
  let ?d = "Day t"
  let ?y = "1970 + (if ?d < 0 then ?d div 365 else ?d div 366)"
  have "DayFromYear ?y \<le> ?d"
  proof (cases "?d < 0")
    case True
    then have "?d div 365 \<le> 0" by simp
    then have "DayFromYear (1970 + ?d div 365) \<le> 365 * (?d div 365)"
      by (rule DayFromYear_upper_neg)
    also have "\<dots> \<le> ?d" by simp
    finally show ?thesis using True by simp
  next
    case False
    then have "0 \<le> ?d div 366" by simp
    then have "DayFromYear (1970 + ?d div 366) \<le> 366 * (?d div 366)"
      by (rule DayFromYear_upper)
    also have "\<dots> \<le> ?d" by simp
    finally show ?thesis using False by simp
  qed
  then show ?thesis unfolding YearFromTime_def Let_def by (rule year_search_spec)
qed

lemma DayWithinYear_range:
  "0 \<le> DayWithinYear t \<and> DayWithinYear t < DaysInYear (YearFromTime t)"
  using YearFromTime_spec[of t] DayFromYear_step[of "YearFromTime t"]
  by (simp add: DayWithinYear_def)

lemma DateFromTime_range:
  "1 \<le> DateFromTime t
   \<and> DateFromTime t \<le> DaysInMonth (YearFromTime t) (MonthFromTime t + 1)"
proof -
  have r: "0 \<le> DayWithinYear t" "DayWithinYear t < DaysInYear (YearFromTime t)"
    using DayWithinYear_range[of t] by simp_all
  have c: "DaysInYear (YearFromTime t) = 365 \<or> DaysInYear (YearFromTime t) = 366"
    by (rule DaysInYear_cases)
  show ?thesis
  proof (cases "DaysInYear (YearFromTime t) = 366")
    case True
    with r show ?thesis
      by (simp add: DateFromTime_def MonthFromTime_def monthStart_def DaysInMonth_def
          InLeapYear_def Let_def)
  next
    case False
    with c have "DaysInYear (YearFromTime t) = 365" by simp
    with r show ?thesis
      by (simp add: DateFromTime_def MonthFromTime_def monthStart_def DaysInMonth_def
          InLeapYear_def Let_def)
  qed
qed

subsection \<open>The date of a candle\<close>

text \<open>
  The UTC calendar date of a time value, written as \<^verbatim>\<open>toISOString\<close> writes it: the year
  (four digits from 0 to 9999, six and a sign otherwise), the month and the day.
\<close>

definition utc_date_string :: "int \<Rightarrow> string" where
  "utc_date_string t =
     year_string (YearFromTime t) @ ''-'' @ pad 2 (MonthFromTime t + 1)
     @ ''-'' @ pad 2 (DateFromTime t)"

lemma pad_no_T: "CHR ''T'' \<notin> set (pad k n)"
  using is_digit_pad[of k n] is_digit_not_T by (auto simp: list_all_iff)

lemma year_string_no_T: "CHR ''T'' \<notin> set (year_string y)"
  by (simp add: year_string_def pad_no_T)

lemma utc_date_string_no_T: "CHR ''T'' \<notin> set (utc_date_string t)"
  by (simp add: utc_date_string_def pad_no_T year_string_no_T)

lemma split_T0_toISOString:
  assumes "toISOString (Some t) = Inr s"
  shows "split_T0 s = utc_date_string t"
proof -
  obtain r where s: "s = utc_date_string t @ CHR ''T'' # r"
    using assms by (auto simp: utc_date_string_def)
  have "takeWhile (\<lambda>c. c \<noteq> CHR ''T'') (utc_date_string t @ CHR ''T'' # r)
        = utc_date_string t @ takeWhile (\<lambda>c. c \<noteq> CHR ''T'') (CHR ''T'' # r)"
    by (rule takeWhile_append2) (use utc_date_string_no_T[of t] in auto)
  then show ?thesis by (simp add: split_T0_def s)
qed

lemma Day_of_day_start: "Day (Day t * msPerDay) = Day t"
  by (simp add: Day_def msPerDay_def)

text \<open>The date string is that of the day: the time within the day plays no part.\<close>

lemma utc_date_string_truncates: "utc_date_string t = utc_date_string (Day t * msPerDay)"
proof -
  have y: "YearFromTime (Day t * msPerDay) = YearFromTime t"
    by (simp add: YearFromTime_def Day_of_day_start)
  have w: "DayWithinYear (Day t * msPerDay) = DayWithinYear t"
    by (simp add: DayWithinYear_def y Day_of_day_start)
  have l: "InLeapYear (Day t * msPerDay) = InLeapYear t"
    by (simp add: InLeapYear_def y)
  have m: "MonthFromTime (Day t * msPerDay) = MonthFromTime t"
    by (simp add: MonthFromTime_def w l)
  have d: "DateFromTime (Day t * msPerDay) = DateFromTime t"
    by (simp add: DateFromTime_def w l m)
  show ?thesis by (simp add: utc_date_string_def y m d)
qed

lemma iso_date_layout:
  assumes "length a = 4" and "length b = 2" and "length c = 2"
  shows "length (a @ ''-'' @ b @ ''-'' @ c) = 10
         \<and> (a @ ''-'' @ b @ ''-'' @ c) ! 4 = CHR ''-''
         \<and> (a @ ''-'' @ b @ ''-'' @ c) ! 7 = CHR ''-''
         \<and> take 4 (a @ ''-'' @ b @ ''-'' @ c) = a
         \<and> take 2 (drop 5 (a @ ''-'' @ b @ ''-'' @ c)) = b
         \<and> drop 8 (a @ ''-'' @ b @ ''-'' @ c) = c"
  using assms by (simp add: nth_append)

text \<open>
  Read back as a date, the date string of a time value in the years 0 to 9999 is the start
  of its UTC day.
\<close>

lemma isoDateParse_utc_date_string:
  assumes "0 \<le> YearFromTime t" and "YearFromTime t \<le> 9999"
  shows "isoDateParse (utc_date_string t) = Some (Day t * msPerDay)"
proof -
  let ?y = "YearFromTime t" and ?m = "MonthFromTime t + 1" and ?d = "DateFromTime t"
  let ?s = "pad 4 ?y @ ''-'' @ pad 2 ?m @ ''-'' @ pad 2 ?d"
  have s: "utc_date_string t = ?s" using assms by (simp add: utc_date_string_def year_string_def)
  note lay = iso_date_layout[of "pad 4 ?y" "pad 2 ?m" "pad 2 ?d", simplified]
  have m: "1 \<le> ?m" "?m \<le> 12" using MonthFromTime_range[of t] by simp_all
  have d: "1 \<le> ?d" "?d \<le> DaysInMonth ?y ?m" using DateFromTime_range[of t] by simp_all
  have "DaysInMonth ?y ?m \<le> 31" by (simp add: DaysInMonth_def)
  with d have d31: "?d \<le> 31" by simp
  have vy: "digits_val (pad 4 ?y) = ?y" using assms by (simp add: digits_val_pad)
  have vm: "digits_val (pad 2 ?m) = ?m" using m by (simp add: digits_val_pad)
  have vd: "digits_val (pad 2 ?d) = ?d" using d d31 by (simp add: digits_val_pad)
  have "MakeDay ?y (MonthFromTime t) ?d = Day t" using MakeDay_shift[of t 0] by simp
  then have md: "MakeDate (MakeDay ?y (MonthFromTime t) ?d) 0 = Day t * msPerDay"
    by (simp add: MakeDate_def)
  show ?thesis
    unfolding s isoDateParse_def
    using lay m d by (simp add: is_digit_pad vy vm vd md Let_def)
qed

subsection \<open>The price of a candle\<close>

lemma toFixed6_form:
  assumes "\<bar>x\<bar> < 10 ^ 21"
  shows "\<exists>whole frac.
           toFixed6 rt (Fin x) = (if x < 0 then ''-'' else []) @ whole @ ''.'' @ frac
           \<and> length frac = 6 \<and> whole \<noteq> [] \<and> list_all is_digit (whole @ frac)
           \<and> digits_val (whole @ frac) = \<lfloor>\<bar>x\<bar> * 10 ^ 6 + 1 / 2\<rfloor>"
proof -
  let ?n = "\<lfloor>\<bar>x\<bar> * 10 ^ 6 + 1 / 2\<rfloor>"
  let ?m = "decimal ?n"
  let ?m' = "if length ?m \<le> 6 then replicate (7 - length ?m) CHR ''0'' @ ?m else ?m"
  let ?k = "length ?m'"
  have "0 \<le> \<bar>x\<bar> * 10 ^ 6 + 1 / 2" by simp
  then have n0: "0 \<le> ?n" by simp
  note dec = decimal_digits[OF n0]
  have z: "is_digit CHR ''0''" by (simp add: is_digit_def)
  have dig: "list_all is_digit ?m'" using dec z by (simp add: list_all_iff)
  have val: "digits_val ?m' = ?n" using dec by (simp add: digits_val_zeros)
  have len: "7 \<le> ?k" by simp
  have e: "toFixed6 rt (Fin x)
           = (if x < 0 then ''-'' else []) @ take (?k - 6) ?m' @ ''.'' @ drop (?k - 6) ?m'"
    using assms by (simp add: toFixed6_def Let_def)
  have f: "length (drop (?k - 6) ?m') = 6" using len by simp
  have w: "take (?k - 6) ?m' \<noteq> []" using len by auto
  have a: "take (?k - 6) ?m' @ drop (?k - 6) ?m' = ?m'" by (rule append_take_drop_id)
  show ?thesis
    apply (rule exI[of _ "take (?k - 6) ?m'"])
    apply (rule exI[of _ "drop (?k - 6) ?m'"])
    apply (intro conjI e f w)
     apply (simp only: a dig)
    apply (simp only: a val)
    done
qed

text \<open>
  C8. A candle with a valid open time \<open>t\<close> and a finite open price \<open>x\<close> below \<open>10\<^sup>2\<^sup>1\<close>
  stands for the point whose date is the UTC calendar date of \<open>t\<close>, the date of the start of
  its UTC day (and, for a year of four digits, the date that reads back as that start), and
  whose price is a sign, digits, a point and exactly six digits: the digits of the integer
  nearest to \<open>\<bar>x\<bar> * 10\<^sup>6\<close>.
\<close>

theorem candle_becomes_point:
  assumes "\<bar>t\<bar> \<le> maxTime" and "\<bar>x\<bar> < 10 ^ 21"
  shows "\<exists>whole frac.
           candle_point rt \<lparr>openTime = Some t, openPrice = Fin x\<rparr>
             = Inr \<lparr>date = utc_date_string t,
                    price = (if x < 0 then ''-'' else []) @ whole @ ''.'' @ frac\<rparr>
           \<and> utc_date_string t = utc_date_string (Day t * msPerDay)
           \<and> (0 \<le> YearFromTime t \<and> YearFromTime t \<le> 9999 \<longrightarrow>
                isoDateParse (utc_date_string t) = Some (Day t * msPerDay))
           \<and> length frac = 6 \<and> whole \<noteq> [] \<and> list_all is_digit (whole @ frac)
           \<and> digits_val (whole @ frac) = \<lfloor>\<bar>x\<bar> * 10 ^ 6 + 1 / 2\<rfloor>"
proof -
  obtain whole frac where
    p: "toFixed6 rt (Fin x) = (if x < 0 then ''-'' else []) @ whole @ ''.'' @ frac"
    and q: "length frac = 6" "whole \<noteq> []" "list_all is_digit (whole @ frac)"
      "digits_val (whole @ frac) = \<lfloor>\<bar>x\<bar> * 10 ^ 6 + 1 / 2\<rfloor>"
    using toFixed6_form[OF assms(2), of rt] by blast
  have v: "TimeClip t = Some t" using assms(1) by (simp add: TimeClip_def)
  obtain s where s: "toISOString (Some t) = Inr s" by simp
  have c: "candle_point rt \<lparr>openTime = Some t, openPrice = Fin x\<rparr>
           = Inr \<lparr>date = utc_date_string t,
                  price = (if x < 0 then ''-'' else []) @ whole @ ''.'' @ frac\<rparr>"
    unfolding candle_point_def using split_T0_toISOString[OF s] s p
    by (simp add: v del: toISOString.simps)
  have r: "0 \<le> YearFromTime t \<and> YearFromTime t \<le> 9999 \<longrightarrow>
           isoDateParse (utc_date_string t) = Some (Day t * msPerDay)"
    using isoDateParse_utc_date_string[of t] by simp
  show ?thesis
    apply (rule exI[of _ whole])
    apply (rule exI[of _ frac])
    apply (intro conjI c utc_date_string_truncates r q)
    done
qed

text \<open>
  The candle of the specification's example. Its price is the double nearest to 0.123456:
  \<open>8895942329546431 / 2\<^sup>5\<^sup>6\<close>, with a significand of 53 bits and within half a unit in the
  last place of the decimal.
\<close>

lemma example_price_is_nearest_double:
  "(2::int) ^ 52 \<le> 8895942329546431 \<and> (8895942329546431::int) < 2 ^ 53
   \<and> \<bar>(8895942329546431 / 2 ^ 56 :: rat) - 123456 / 10 ^ 6\<bar> \<le> 1 / 2 ^ 57"
  by simp

theorem candle_becomes_point_witness:
  "\<bar>1767225600000\<bar> \<le> maxTime
   \<and> \<bar>8895942329546431 / 2 ^ 56 :: rat\<bar> < 10 ^ 21
   \<and> candle_point utc_host
        \<lparr>openTime = Some 1767225600000, openPrice = Fin (8895942329546431 / 2 ^ 56)\<rparr>
       = Inr \<lparr>date = ''2026-01-01'', price = ''0.123456''\<rparr>
   \<and> utc_date_string 1767225600000 = ''2026-01-01''
   \<and> isoDateParse (utc_date_string 1767225600000) = Some (Day 1767225600000 * msPerDay)
   \<and> Day 1767225600000 * msPerDay = 1767225600000"
proof -
  have a: "\<bar>1767225600000\<bar> \<le> maxTime" by (simp add: maxTime_def)
  have b: "\<bar>8895942329546431 / 2 ^ 56 :: rat\<bar> < 10 ^ 21" by simp
  have c: "candle_point utc_host
             \<lparr>openTime = Some 1767225600000, openPrice = Fin (8895942329546431 / 2 ^ 56)\<rparr>
           = Inr \<lparr>date = ''2026-01-01'', price = ''0.123456''\<rparr>"
    by code_simp
  have d: "utc_date_string 1767225600000 = ''2026-01-01''" by code_simp
  have y: "0 \<le> YearFromTime 1767225600000 \<and> YearFromTime 1767225600000 \<le> 9999"
    by code_simp
  from candle_becomes_point[OF a b, of utc_host] y
  have e: "isoDateParse (utc_date_string 1767225600000) = Some (Day 1767225600000 * msPerDay)"
    by blast
  have f: "Day 1767225600000 * msPerDay = 1767225600000"
    by (simp add: Day_def msPerDay_def)
  from a b c d e f show ?thesis by (intro conjI)
qed

subsection \<open>Dates before the start date\<close>

lemma DayFromYear_2026: "DayFromYear 2026 = 20454"
  by (simp add: DayFromYear_def)

lemma digit_char_eq: "(digit_char n = c) = (48 + n mod 10 = (of_char c :: int))"
proof
  assume "digit_char n = c"
  then show "48 + n mod 10 = (of_char c :: int)" using of_char_digit_char[of n] by simp
next
  assume "48 + n mod 10 = (of_char c :: int)"
  then have "(of_char (digit_char n) :: int) = of_char c" by (simp add: of_char_digit_char)
  then show "digit_char n = c" by (simp only: of_char_eq_iff)
qed

lemma pad4_below_2026:
  assumes "0 \<le> y" and "y \<le> 2025"
  shows "str_lt (pad 4 y @ r) ''2026-01-01''"
proof -
  define r0 where "r0 = y mod 10"
  define q1 where "q1 = y div 10"
  define r1 where "r1 = q1 mod 10"
  define q2 where "q2 = q1 div 10"
  define r2 where "r2 = q2 mod 10"
  define q3 where "q3 = q2 div 10"
  have e0: "y = 10 * q1 + r0" by (simp add: r0_def q1_def)
  have e1: "q1 = 10 * q2 + r1" by (simp add: r1_def q2_def)
  have e2: "q2 = 10 * q3 + r2" by (simp add: r2_def q3_def)
  have b0: "0 \<le> r0" "r0 < 10" by (simp_all add: r0_def)
  have b1: "0 \<le> r1" "r1 < 10" by (simp_all add: r1_def)
  have b2: "0 \<le> r2" "r2 < 10" by (simp_all add: r2_def)
  have q1n: "0 \<le> q1" using assms(1) by (simp add: q1_def)
  have q2n: "0 \<le> q2" using q1n by (simp add: q2_def)
  have q3n: "0 \<le> q3" using q2n by (simp add: q3_def)
  have q3u: "q3 \<le> 2" using assms(2) e0 e1 e2 b0 b1 b2 by linarith
  have r3: "q3 mod 10 = q3" using q3n q3u by simp
  have p: "pad 4 y = [digit_char q3, digit_char q2, digit_char q1, digit_char y]"
    by (simp add: eval_nat_numeral q1_def q2_def q3_def)
  have m3: "(of_char (digit_char q3) :: int) = 48 + q3"
    by (simp add: of_char_digit_char r3)
  have m2: "(of_char (digit_char q2) :: int) = 48 + r2"
    by (simp add: of_char_digit_char r2_def)
  have m1: "(of_char (digit_char q1) :: int) = 48 + r1"
    by (simp add: of_char_digit_char r1_def)
  have m0: "(of_char (digit_char y) :: int) = 48 + r0"
    by (simp add: of_char_digit_char r0_def)
  show ?thesis
  proof (cases "q3 < 2")
    case True
    then show ?thesis by (simp add: p m3)
  next
    case False
    with q3u have q3: "q3 = 2" by simp
    have r2z: "r2 = 0" using assms(2) e0 e1 e2 b0 b1 b2 q3 by linarith
    have c3: "digit_char q3 = CHR ''2''" by (simp add: digit_char_eq q3)
    have c2: "digit_char q2 = CHR ''0''" using r2z by (simp add: digit_char_eq r2_def)
    have r1u: "r1 \<le> 2" using assms(2) e0 e1 e2 b0 b1 b2 q3 r2z by linarith
    show ?thesis
    proof (cases "r1 < 2")
      case True
      then show ?thesis by (simp add: p c3 c2 m1)
    next
      case False
      with r1u have r1e: "r1 = 2" by simp
      have c1: "digit_char q1 = CHR ''2''" using r1e by (simp add: digit_char_eq r1_def)
      have "r0 < 6" using assms(2) e0 e1 e2 q3 r2z r1e by linarith
      then show ?thesis by (simp add: p c3 c2 c1 m0)
    qed
  qed
qed

text \<open>
  The string comparison of the script agrees with the calendar below the start date: the
  date string of every time value before 2026-01-01T00:00:00Z compares below it.
\<close>

lemma before_start_compares_below:
  assumes "t < 1767225600000"
  shows "str_lt (utc_date_string t) START_DATE"
proof -
  have "t \<le> 1767225599999" using assms by simp
  then have "t div msPerDay \<le> 1767225599999 div msPerDay"
    by (rule zdiv_mono1) (simp add: msPerDay_def)
  then have d: "Day t < 20454" by (simp add: Day_def msPerDay_def)
  have y: "YearFromTime t \<le> 2025"
  proof (rule ccontr)
    assume "\<not> YearFromTime t \<le> 2025"
    then have "2026 \<le> YearFromTime t" by simp
    then have "DayFromYear 2026 \<le> DayFromYear (YearFromTime t)" by (rule DayFromYear_mono)
    with YearFromTime_spec[of t] d show False by (simp add: DayFromYear_2026)
  qed
  show ?thesis
  proof (cases "YearFromTime t < 0")
    case True
    then show ?thesis by (simp add: utc_date_string_def year_string_def START_DATE_def)
  next
    case False
    with y have "year_string (YearFromTime t) = pad 4 (YearFromTime t)"
      by (simp add: year_string_def)
    moreover have "str_lt (pad 4 (YearFromTime t) @ ''-'' @ pad 2 (MonthFromTime t + 1)
                     @ ''-'' @ pad 2 (DateFromTime t)) ''2026-01-01''"
      using False y by (intro pad4_below_2026) simp_all
    ultimately show ?thesis by (simp add: utc_date_string_def START_DATE_def)
  qed
qed

lemma start_date_time: "Date_parse rt START_DATE = Some 1767225600000"
proof -
  have "isoDateParse START_DATE = Some 1767225600000" by code_simp
  then show ?thesis by (simp add: Date_parse_def TimeClip_def maxTime_def)
qed

text \<open>
  C5. For every host, every exchange, every range and every exclusion set: no date that
  compares below the start date is the date of an emitted point, and so the date of no
  time value before the start date (2026-01-01T00:00:00Z, the time value 1767225600000)
  is; no date of the exclusion set is; and no two emitted points share a date.
\<close>

theorem fetcher_emits_fresh_dates:
  "(\<forall>d. str_lt d START_DATE \<longrightarrow>
        d \<notin> date ` set (newData (fetchHistoricalData rt up startDate endDate dates)))
   \<and> Date_parse rt START_DATE = Some 1767225600000
   \<and> (\<forall>t. t < 1767225600000 \<longrightarrow>
        utc_date_string t
          \<notin> date ` set (newData (fetchHistoricalData rt up startDate endDate dates)))
   \<and> (\<forall>d \<in> dates. d \<notin> date ` set (newData (fetchHistoricalData rt up startDate endDate dates)))
   \<and> distinct (map date (newData (fetchHistoricalData rt up startDate endDate dates)))"
proof -
  let ?new = "newData (fetchHistoricalData rt up startDate endDate dates)"
  note f = fetchHistoricalData_fresh[of dates rt up startDate endDate, unfolded fresh_def]
  have a: "\<forall>d. str_lt d START_DATE \<longrightarrow> d \<notin> date ` set ?new" using f by auto
  have b: "\<forall>t. t < 1767225600000 \<longrightarrow> utc_date_string t \<notin> date ` set ?new"
    using a before_start_compares_below by blast
  have c: "\<forall>d \<in> dates. d \<notin> date ` set ?new" using f by auto
  have d: "distinct (map date ?new)" using f by simp
  from a start_date_time b c d show ?thesis by (intro conjI)
qed

theorem fetcher_emits_fresh_dates_witness:
  "str_lt ''2025-12-31'' START_DATE
   \<and> ''2025-12-31'' \<notin> date ` set (newData (fetchHistoricalData utc_host five_candles
          (Some 1767225600000) (Some 1767441600000) (set [''2026-01-02''])))
   \<and> (1767139200000 :: int) < 1767225600000
   \<and> utc_date_string 1767139200000 = ''2025-12-31''
   \<and> utc_date_string 1767139200000
       \<notin> date ` set (newData (fetchHistoricalData utc_host five_candles
          (Some 1767225600000) (Some 1767441600000) (set [''2026-01-02''])))
   \<and> ''2026-01-02'' \<in> set [''2026-01-02'']
   \<and> ''2026-01-02'' \<notin> date ` set (newData (fetchHistoricalData utc_host five_candles
          (Some 1767225600000) (Some 1767441600000) (set [''2026-01-02''])))
   \<and> distinct (map date (newData (fetchHistoricalData utc_host five_candles
          (Some 1767225600000) (Some 1767441600000) (set [''2026-01-02'']))))
   \<and> newData (fetchHistoricalData utc_host five_candles
          (Some 1767225600000) (Some 1767441600000) (set [''2026-01-02'']))
       = [\<lparr>date = ''2026-01-01'', price = ''0.250000''\<rparr>,
          \<lparr>date = ''2026-01-03'', price = ''2.000000''\<rparr>]"
proof -
  let ?r = "fetchHistoricalData utc_host five_candles
              (Some 1767225600000) (Some 1767441600000) (set [''2026-01-02''])"
  have a: "str_lt ''2025-12-31'' START_DATE" by (simp add: START_DATE_def)
  have b: "''2026-01-02'' \<in> set [''2026-01-02'']" by simp
  note t = fetcher_emits_fresh_dates[of utc_host five_candles "Some 1767225600000"
      "Some 1767441600000" "set [''2026-01-02'']"]
  from t a have c: "''2025-12-31'' \<notin> date ` set (newData ?r)" by blast
  have a1: "(1767139200000 :: int) < 1767225600000" by simp
  have a2: "utc_date_string 1767139200000 = ''2025-12-31''" by code_simp
  from t a1 have a3: "utc_date_string 1767139200000 \<notin> date ` set (newData ?r)" by blast
  from t b have d: "''2026-01-02'' \<notin> date ` set (newData ?r)" by blast
  from t have e: "distinct (map date (newData ?r))" by blast
  from a c a1 a2 a3 b d e five_candles_run show ?thesis by (intro conjI)
qed


section \<open>The windows of the batch fetcher\<close>

subsection \<open>A zone at a constant offset from UTC\<close>

text \<open>
  In a host whose local time is at a constant offset from UTC (a zone without summer time)
  the windows are the ones the specification describes.
\<close>

definition fixed_zone :: "runtime \<Rightarrow> bool" where
  "fixed_zone rt = (\<exists>c. \<bar>c\<bar> \<le> msPerDay \<and> (\<forall>t u. LocalTZA rt t u = c))"

text \<open>
  The window that starts with the day of \<open>t\<close>: from the start of that day to the end of the
  day 999 days later, or of the day of \<open>e\<close> when that comes first.
\<close>

definition window_of :: "int \<Rightarrow> int \<Rightarrow> jsint \<times> jsint" where
  "window_of e t =
     (Some (Day t * msPerDay),
      Some (Day (min (t + (batchSize - 1) * msPerDay) e) * msPerDay + msPerDay - 1))"

definition window_count :: "int \<Rightarrow> int \<Rightarrow> nat" where
  "window_count t e = (if t \<le> e then nat ((e - t) div (batchSize * msPerDay)) + 1 else 0)"

lemma setDate_fixed_zone:
  assumes "fixed_zone rt"
  shows "setDate rt (Some t) (num_add (getDate rt (Some t)) n) = TimeClip (t + n * msPerDay)"
proof -
  from assms obtain c where c: "\<bar>c\<bar> \<le> msPerDay" "\<And>t u. LocalTZA rt t u = c"
    by (auto simp: fixed_zone_def)
  have o: "offset rt x u = c" for x u using c by (simp add: offset_def)
  show ?thesis by (simp only: setDate_getDate) (simp add: UTC_def LocalTime_def o)
qed

lemma year_from_1970: "0 \<le> t \<Longrightarrow> 1970 \<le> YearFromTime t"
proof (rule ccontr)
  assume t: "0 \<le> t" and "\<not> 1970 \<le> YearFromTime t"
  then have "YearFromTime t + 1 \<le> 1970" by simp
  then have "DayFromYear (YearFromTime t + 1) \<le> DayFromYear 1970" by (rule DayFromYear_mono)
  moreover have "0 \<le> Day t" using t by (simp add: Day_def msPerDay_def)
  ultimately show False using YearFromTime_spec[of t] by (simp add: DayFromYear_1970)
qed

lemma day_start_le: "Day t * msPerDay \<le> t"
  using mod_day_bounds[of t] by (simp add: day_start)

lemma utc_day_start:
  assumes "0 \<le> t" and "t \<le> maxTime"
  shows "Date_of_number (Date_UTC (getUTCFullYear (Some t)) (getUTCMonth (Some t))
           (getUTCDate (Some t)) 0 0 0 0) = Some (Day t * msPerDay)"
proof -
  have y: "MakeFullYear (YearFromTime t) = YearFromTime t"
    using year_from_1970[OF assms(1)] by (simp add: MakeFullYear_def)
  have m: "MakeDay (YearFromTime t) (MonthFromTime t) (DateFromTime t) = Day t"
    using MakeDay_shift[of t 0] by simp
  have "0 \<le> Day t" using assms(1) by (simp add: Day_def msPerDay_def)
  then have lo: "0 \<le> Day t * msPerDay" by (simp add: msPerDay_def)
  have hi: "Day t * msPerDay \<le> maxTime" using day_start_le[of t] assms(2) by simp
  have c: "TimeClip (Day t * msPerDay) = Some (Day t * msPerDay)"
    using lo hi by (simp add: TimeClip_def)
  have "Date_UTC (getUTCFullYear (Some t)) (getUTCMonth (Some t)) (getUTCDate (Some t)) 0 0 0 0
        = TimeClip (MakeDate (Day t) 0)"
    by (simp add: y m MakeTime_def)
  also have "MakeDate (Day t) 0 = Day t * msPerDay" by (simp add: MakeDate_def)
  finally show ?thesis by (simp add: c)
qed

lemma utc_day_end:
  assumes "0 \<le> t" and "t + msPerDay \<le> maxTime"
  shows "Date_of_number (Date_UTC (getUTCFullYear (Some t)) (getUTCMonth (Some t))
           (getUTCDate (Some t)) 23 59 59 999) = Some (Day t * msPerDay + msPerDay - 1)"
proof -
  have y: "MakeFullYear (YearFromTime t) = YearFromTime t"
    using year_from_1970[OF assms(1)] by (simp add: MakeFullYear_def)
  have m: "MakeDay (YearFromTime t) (MonthFromTime t) (DateFromTime t) = Day t"
    using MakeDay_shift[of t 0] by simp
  have e: "MakeTime 23 59 59 999 = msPerDay - 1"
    by (simp add: MakeTime_def msPerHour_def msPerMinute_def msPerSecond_def msPerDay_def)
  have "0 \<le> Day t" using assms(1) by (simp add: Day_def msPerDay_def)
  then have lo: "0 \<le> Day t * msPerDay + msPerDay - 1" by (simp add: msPerDay_def)
  have hi: "Day t * msPerDay + msPerDay - 1 \<le> maxTime"
    using day_start_le[of t] assms(2) by simp
  have c: "TimeClip (Day t * msPerDay + msPerDay - 1) = Some (Day t * msPerDay + msPerDay - 1)"
    using lo hi by (simp add: TimeClip_def)
  have "Date_UTC (getUTCFullYear (Some t)) (getUTCMonth (Some t)) (getUTCDate (Some t))
          23 59 59 999
        = TimeClip (MakeDate (Day t) (msPerDay - 1))"
    by (simp add: y m e)
  also have "MakeDate (Day t) (msPerDay - 1) = Day t * msPerDay + msPerDay - 1"
    by (simp add: MakeDate_def)
  finally show ?thesis by (simp add: c)
qed

lemma requests_each_candle: "each_candle rt st c = Inr st' \<Longrightarrow> requests st' = requests st"
  by (auto simp: each_candle_def split: sum.splits if_splits)

lemma requests_forEach_candle: "requests (fst (forEach_candle rt st ks)) = requests st"
proof (induction ks arbitrary: st)
  case Nil
  then show ?case by simp
next
  case (Cons k ks)
  show ?case
  proof (cases "each_candle rt st k")
    case (Inl e)
    then show ?thesis by simp
  next
    case (Inr st')
    with Cons.IH[of st'] requests_each_candle[OF Inr] show ?thesis by simp
  qed
qed

lemma requests_window_body:
  assumes z: "fixed_zone rt" and t: "0 \<le> t" "t \<le> e" and e: "e + batchSize * msPerDay \<le> maxTime"
  shows "requests (window_body rt up (Some e) (Some t) st) = requests st @ [window_of e t]"
proof -
  let ?b = "t + (batchSize - 1) * msPerDay"
  have d: "0 < msPerDay" by (simp add: msPerDay_def)
  have b: "setDate rt (Some t) (num_add (getDate rt (Some t)) (batchSize - 1)) = Some ?b"
  proof -
    have "\<bar>?b\<bar> \<le> maxTime" using t e d by (simp add: batchSize_def)
    then have "TimeClip ?b = Some ?b" by (simp add: TimeClip_def)
    then show ?thesis by (simp only: setDate_fixed_zone[OF z])
  qed
  have ce: "TimeClip e = Some e" using t e d by (simp add: TimeClip_def batchSize_def)
  define be where "be = min ?b e"
  have be: "(if date_gt (Some ?b) (Some e) then setTime (Some e) else Some ?b) = Some be"
    by (auto simp: be_def ce)
  have be0: "0 \<le> be" using t d by (simp add: be_def batchSize_def)
  have be1: "be + msPerDay \<le> maxTime" using e d by (simp add: be_def batchSize_def)
  have s1: "Date_of_number (Date_UTC (getUTCFullYear (Some t)) (getUTCMonth (Some t))
              (getUTCDate (Some t)) 0 0 0 0) = Some (Day t * msPerDay)"
    using t e d by (intro utc_day_start) (simp_all add: batchSize_def)
  have s2: "Date_of_number (Date_UTC (getUTCFullYear (Some be)) (getUTCMonth (Some be))
              (getUTCDate (Some be)) 23 59 59 999) = Some (Day be * msPerDay + msPerDay - 1)"
    using be0 be1 by (rule utc_day_end)
  have r: "requests (case forEach_candle rt s ks of
                       (st2, None) \<Rightarrow> st2
                     | (st2, Some x) \<Rightarrow> st2\<lparr>caught := caught st2 @ [x]\<rparr>) = requests s" for s ks
    using requests_forEach_candle[of rt s ks]
    by (cases "forEach_candle rt s ks") (auto split: option.splits)
  show ?thesis
    unfolding window_body_def Let_def b be s1 s2
    by (simp add: r window_of_def be_def split: sum.splits)
qed

lemma window_count_step:
  assumes "t \<le> e"
  shows "window_count t e = Suc (window_count (t + batchSize * msPerDay) e)"
proof -
  let ?W = "batchSize * msPerDay"
  have w: "0 < ?W" by (simp add: batchSize_def msPerDay_def)
  show ?thesis
  proof (cases "t + ?W \<le> e")
    case True
    have "(e - t) div ?W = (e - (t + ?W) + 1 * ?W) div ?W" by (simp add: algebra_simps)
    also have "\<dots> = 1 + (e - (t + ?W)) div ?W" using w by (simp only: div_mult_self1)
    finally have "(e - t) div ?W = 1 + (e - (t + ?W)) div ?W" .
    moreover have "0 \<le> (e - (t + ?W)) div ?W" using True w by (simp add: pos_imp_zdiv_nonneg_iff)
    ultimately show ?thesis using True assms by (simp add: window_count_def nat_add_distrib)
  next
    case False
    then have "(e - t) div ?W = 0" using assms w by (simp add: div_pos_pos_trivial)
    with False assms show ?thesis by (simp add: window_count_def)
  qed
qed

lemma fixed_zone_fetch_windows:
  assumes z: "fixed_zone rt" and e: "e + batchSize * msPerDay \<le> maxTime"
  shows "0 \<le> t \<Longrightarrow>
         requests (fetch_windows rt up (Some e) (Some t) st)
         = requests st @ map (\<lambda>k. window_of e (t + int k * (batchSize * msPerDay)))
                            [0..<window_count t e]"
proof (induction "nat (e + 1 - t)" arbitrary: t st rule: less_induct)
  case less
  let ?W = "batchSize * msPerDay"
  have w: "0 < ?W" by (simp add: batchSize_def msPerDay_def)
  show ?case
  proof (cases "t \<le> e")
    case False
    then show ?thesis
      by (subst fetch_windows.simps) (simp add: window_count_def)
  next
    case True
    have n: "setDate rt (Some t) (num_add (getDate rt (Some t)) batchSize) = Some (t + ?W)"
    proof -
      have "\<bar>t + ?W\<bar> \<le> maxTime" using True e less.prems w by simp
      then have "TimeClip (t + ?W) = Some (t + ?W)" by (simp add: TimeClip_def)
      then show ?thesis by (simp only: setDate_fixed_zone[OF z])
    qed
    have b: "requests (window_body rt up (Some e) (Some t) st) = requests st @ [window_of e t]"
      using z less.prems True e by (rule requests_window_body)
    have m: "nat (e + 1 - (t + ?W)) < nat (e + 1 - t)" using True w by simp
    have p: "0 \<le> t + ?W" using less.prems w by simp
    have "requests (fetch_windows rt up (Some e) (Some t) st)
          = requests (fetch_windows rt up (Some e) (Some (t + ?W))
                        (window_body rt up (Some e) (Some t) st))"
      by (subst fetch_windows.simps) (simp only: n date_le.simps True if_True)
    also have "\<dots> = (requests st @ [window_of e t])
                     @ map (\<lambda>k. window_of e (t + ?W + int k * ?W)) [0..<window_count (t + ?W) e]"
      by (simp only: less.hyps[OF m p] b)
    also have "\<dots> = requests st
                     @ map (\<lambda>k. window_of e (t + int k * ?W)) [0..<Suc (window_count (t + ?W) e)]"
      by (simp add: upt_rec[of 0 "Suc _"] map_Suc_upt[symmetric] algebra_simps del: upt_Suc)
    finally show ?thesis by (simp only: window_count_step[OF True])
  qed
qed

lemma fixed_zone_requests:
  assumes "fixed_zone rt" and "0 \<le> s" and "e + batchSize * msPerDay \<le> maxTime"
  shows "requests (fetchHistoricalData rt up (Some s) (Some e) dates)
         = map (\<lambda>k. window_of e (s + int k * (batchSize * msPerDay))) [0..<window_count s e]"
  unfolding fetchHistoricalData_def
  using fixed_zone_fetch_windows[OF assms(1,3,2), of up] by simp

text \<open>
  A window that starts at a UTC midnight \<open>t\<close> runs to the millisecond before \<open>t\<close> plus 1000
  days, or to the end of the day of \<open>e\<close> when that comes first: it is never longer than
  1000 days, and the next window, when there is one, starts where it ends.
\<close>

lemma window_of_midnight:
  assumes "t mod msPerDay = 0"
  shows "window_of e t
         = (Some t, Some (min (t + batchSize * msPerDay) (Day e * msPerDay + msPerDay) - 1))"
proof -
  have d: "0 < msPerDay" by (simp add: msPerDay_def)
  have t: "Day t * msPerDay = t" using assms by (simp add: day_start)
  let ?b = "t + (batchSize - 1) * msPerDay"
  have "?b = (Day t + (batchSize - 1)) * msPerDay" using t by (simp add: algebra_simps)
  then have e1: "Day ?b = Day t + (batchSize - 1)" using d by (simp add: Day_def)
  have "Day ?b * msPerDay + msPerDay = (Day t + (batchSize - 1)) * msPerDay + msPerDay"
    by (simp only: e1)
  also have "\<dots> = Day t * msPerDay + batchSize * msPerDay" by (simp add: algebra_simps)
  also have "\<dots> = t + batchSize * msPerDay" by (simp only: t)
  finally have b: "Day ?b * msPerDay + msPerDay = t + batchSize * msPerDay" .
  show ?thesis
  proof (cases "?b \<le> e")
    case True
    then have "Day ?b \<le> Day e" unfolding Day_def using d by (intro zdiv_mono1) simp_all
    then have "Day ?b * msPerDay + msPerDay \<le> Day e * msPerDay + msPerDay" using d by simp
    with True b show ?thesis by (simp add: window_of_def t min_def)
  next
    case False
    then have "Day e \<le> Day ?b" unfolding Day_def using d by (intro zdiv_mono1) simp_all
    then have "Day e * msPerDay + msPerDay \<le> Day ?b * msPerDay + msPerDay" using d by simp
    with False b show ?thesis by (simp add: window_of_def t min_def)
  qed
qed

lemma fixed_zone_windows:
  assumes "fixed_zone rt" and "0 \<le> s" and "s mod msPerDay = 0"
    and "e + batchSize * msPerDay \<le> maxTime"
  shows "requests (fetchHistoricalData rt up (Some s) (Some e) dates)
         = map (\<lambda>k. (Some (s + int k * (batchSize * msPerDay)),
                      Some (min (s + int k * (batchSize * msPerDay) + batchSize * msPerDay)
                              (Day e * msPerDay + msPerDay) - 1)))
               [0..<window_count s e]"
proof -
  have "(s + int k * (batchSize * msPerDay)) mod msPerDay = 0" for k
    using assms(3) by (simp add: mult.assoc[symmetric])
  then show ?thesis
    by (simp only: fixed_zone_requests[OF assms(1,2,4)] window_of_midnight)
qed

text \<open>A range that spans 2500 days is fetched with three requests.\<close>

lemma fixed_zone_three_windows:
  assumes "fixed_zone rt" and "0 \<le> s" and "e + batchSize * msPerDay \<le> maxTime"
    and "2000 * msPerDay \<le> e - s" and "e - s < 3000 * msPerDay"
  shows "length (requests (fetchHistoricalData rt up (Some s) (Some e) dates)) = 3"
proof -
  let ?W = "batchSize * msPerDay"
  have w: "?W \<noteq> 0" by (simp add: batchSize_def msPerDay_def)
  have r: "0 \<le> e - s - 2 * ?W" "e - s - 2 * ?W < ?W"
    using assms(4,5) by (simp_all add: batchSize_def msPerDay_def)
  have "(e - s) div ?W = ((e - s - 2 * ?W) + 2 * ?W) div ?W" by simp
  also have "\<dots> = 2 + (e - s - 2 * ?W) div ?W" by (rule div_mult_self1[OF w])
  also have "(e - s - 2 * ?W) div ?W = 0" using r by (simp add: div_pos_pos_trivial)
  finally have "(e - s) div (batchSize * msPerDay) = 2" by simp
  moreover have "s \<le> e" using assms(4) by (simp add: msPerDay_def)
  ultimately have "window_count s e = 3" by (simp add: window_count_def)
  then show ?thesis by (simp add: fixed_zone_requests[OF assms(1,2,3)])
qed

lemma fixed_zone_utc_host: "fixed_zone utc_host"
  by (simp add: fixed_zone_def utc_host_def msPerDay_def)


subsection \<open>Two runs\<close>

text \<open>An exchange with no candles.\<close>

definition no_candles :: upstream where
  "no_candles k startTime endTime = Inr []"

text \<open>
  In the UTC zone a range of 2500 days, from 2026-01-01 to 2032-11-04, is fetched in three
  windows of 1000, 1000 and 500 days.
\<close>

lemma utc_windows_2500_days:
  "requests (fetchHistoricalData utc_host no_candles (Some 1767225600000)
               (Some 1983225599999) {})
   = [(Some 1767225600000, Some 1853625599999),
      (Some 1853625600000, Some 1940025599999),
      (Some 1940025600000, Some 1983225599999)]"
  by code_simp

text \<open>
  A host in the zone Europe/Berlin: one hour ahead of UTC, two hours during summer time,
  which runs from 01:00 UTC of the last Sunday of March to 01:00 UTC of the last Sunday of
  October (the years 2026 to 2034 are listed). A local time that a change of the clocks
  skips or repeats is read with the offset before the change.
\<close>

definition berlin_summer :: "(int \<times> int) list" where
  "berlin_summer =
     [(1774746000000, 1792890000000), (1806195600000, 1824944400000),
      (1837645200000, 1856394000000), (1869094800000, 1887843600000),
      (1901149200000, 1919293200000), (1932598800000, 1950742800000),
      (1964048400000, 1982797200000), (1995498000000, 2014246800000),
      (2026947600000, 2045696400000)]"

definition berlin_host :: runtime where
  "berlin_host =
     \<lparr>LocalTZA = (\<lambda>t isUTC.
          if isUTC
          then (if list_ex (\<lambda>(a, b). a \<le> t \<and> t < b) berlin_summer
                then 7200000 else 3600000)
          else (if list_ex (\<lambda>(a, b). a + 7200000 \<le> t \<and> t < b + 7200000) berlin_summer
                then 7200000 else 3600000)),
      otherDateParse = (\<lambda>s. None),
      NumberToString = (\<lambda>x. [])\<rparr>"

text \<open>
  C4 fails on this host. On 2034-03-20 at noon UTC the run sends four requests. The second
  window starts 999 days after the first, and the third window, from 2031-06-23 to
  2034-03-19, is 1001 days long: \<^verbatim>\<open>setDate\<close> and \<^verbatim>\<open>getDate\<close> move the window by local
  calendar days, and the request is cut at the UTC dates of the two ends.
\<close>

theorem berlin_window_of_1001_days:
  "requests (fetchHistoricalData berlin_host no_candles (Some 1767225600000)
               (Some 2026468800000) {})
   = [(Some 1767225600000, Some 1853539199999),
      (Some 1853539200000, Some 1939939199999),
      (Some 1939939200000, Some 2026425599999),
      (Some 2026425600000, Some 2026511999999)]
   \<and> 1853539200000 - 1767225600000 = 999 * msPerDay
   \<and> 2026425599999 + 1 - 1939939200000 = 1001 * msPerDay"
  by code_simp


section \<open>The store\<close>

text \<open>
  The browser's \<^verbatim>\<open>localStorage\<close> holds text. The text under the script's key is
  represented by what \<^verbatim>\<open>JSON.parse\<close> makes of it: the empty string, a text that does not
  parse, or a text that parses to a JSON value. \<open>denied\<close> is a storage the page may not
  touch (every access raises SecurityError), \<open>full\<close> one that takes no more (every write
  raises QuotaExceededError).
\<close>

datatype json =
  JNull | JBool bool | JNum rat | JStr string | JArr "json list" | JObj "(string \<times> json) list"

datatype stored_text = EmptyText | Malformed | Encoded json

record localStorage =
  item :: "stored_text option"
  denied :: bool
  full :: bool

definition getItem :: "localStorage \<Rightarrow> error + stored_text option" where
  "getItem ls = (if denied ls then Inl SecurityError else Inr (item ls))"

definition setItem :: "localStorage \<Rightarrow> json \<Rightarrow> error + localStorage" where
  "setItem ls v =
     (if denied ls then Inl SecurityError
      else if full ls then Inl QuotaExceededError
      else Inr (ls\<lparr>item := Some (Encoded v)\<rparr>))"

definition JSON_parse :: "stored_text \<Rightarrow> error + json" where
  "JSON_parse t = (case t of Encoded v \<Rightarrow> Inr v | _ \<Rightarrow> Inl SyntaxError)"

text \<open>\<^verbatim>\<open>JSON.stringify\<close> of a series, as the value its text parses back to.\<close>

definition point_json :: "PricePoint \<Rightarrow> json" where
  "point_json p = JObj [(''date'', JStr (date p)), (''price'', JStr (price p))]"

definition series_json :: "PricePoint list \<Rightarrow> json" where
  "series_json s = JArr (map point_json s)"

text \<open>A JSON value read as a series: an array of objects with a string date and price.\<close>

definition as_point :: "json \<Rightarrow> PricePoint option" where
  "as_point j =
     (case j of
        JObj props \<Rightarrow>
          (case map_of props ''date'' of
             Some (JStr d) \<Rightarrow>
               (case map_of props ''price'' of
                  Some (JStr p) \<Rightarrow> Some \<lparr>date = d, price = p\<rparr>
                | _ \<Rightarrow> None)
           | _ \<Rightarrow> None)
      | _ \<Rightarrow> None)"

definition as_series :: "json \<Rightarrow> PricePoint list option" where
  "as_series j = (case j of JArr xs \<Rightarrow> those (map as_point xs) | _ \<Rightarrow> None)"

text \<open>
  \<^verbatim>\<open>loadStoredData\<close>: the inner sum is the \<^verbatim>\<open>try\<close> block, the outer case its
  \<^verbatim>\<open>catch\<close>. A stored value that is \<^verbatim>\<open>null\<close> or the empty string is falsy.
\<close>

definition loadStoredData :: "localStorage \<Rightarrow> error + json" where
  "loadStoredData ls =
     (case (case getItem ls of
              Inl e \<Rightarrow> Inl e
            | Inr stored \<Rightarrow>
                (case stored of
                   None \<Rightarrow> Inr (JArr [])
                 | Some EmptyText \<Rightarrow> Inr (JArr [])
                 | Some t \<Rightarrow> JSON_parse t)) of
        Inl error \<Rightarrow> Inr (JArr [])
      | Inr v \<Rightarrow> Inr v)"

section \<open>The application\<close>

text \<open>
  What the script reads and changes besides the store: the clock (\<open>clock w k\<close> is the
  \<open>k\<close>-th reading of \<^verbatim>\<open>new Date()\<close>), the table last drawn, the status line, the errors
  shown, the requests sent to the exchange and the delays of the timers set. The page
  itself (the table's markup, the two info fields, the theme) is left out.
\<close>

record world =
  storage :: localStorage
  clock :: "nat \<Rightarrow> int"
  reads :: nat
  table :: "PricePoint list option"
  status :: string
  shown :: "error list"
  sent :: "(jsint \<times> jsint) list"
  timers :: "jsint list"

definition new_Date :: "world \<Rightarrow> jsdate \<times> world" where
  "new_Date w = (Date_of_number (Some (clock w (reads w))), w\<lparr>reads := Suc (reads w)\<rparr>)"

definition displayData :: "PricePoint list \<Rightarrow> world \<Rightarrow> world" where
  "displayData data w = w\<lparr>table := Some data\<rparr>"

definition updateStatus :: "string \<Rightarrow> world \<Rightarrow> world" where
  "updateStatus message w = w\<lparr>status := message\<rparr>"

definition showError :: "error \<Rightarrow> world \<Rightarrow> world" where
  "showError e w = w\<lparr>shown := shown w @ [e]\<rparr>"

text \<open>
  \<^verbatim>\<open>updateDisplayInfo\<close> reads the store and the clock and fills in two fields of the page,
  where the page has them.
\<close>

definition updateDisplayInfo :: "world \<Rightarrow> world" where
  "updateDisplayInfo w = snd (new_Date w)"

subsection \<open>The scheduler\<close>

fun num_sub :: "jsint \<Rightarrow> jsint \<Rightarrow> jsint" where
  "num_sub (Some x) (Some y) = Some (x - y)"
| "num_sub a b = None"

text \<open>Lines 348 to 353: the Date of the next fetch and the delay of the first timer.\<close>

definition nextFetchDate :: "jsdate \<Rightarrow> jsdate" where
  "nextFetchDate now = setUTCHours (setUTCDate now (num_add (getUTCDate now) 1)) 0 0 0 0"

definition msUntilNext :: "jsdate \<Rightarrow> jsint" where
  "msUntilNext now = num_sub (nextFetchDate now) now"

text \<open>
  \<^verbatim>\<open>scheduleDailyFetch\<close> sets the timer and logs the Date of the next fetch;
  \<^verbatim>\<open>toISOString\<close> raises when that Date is invalid. What the timer runs when it fires,
  a sync cycle on the stored series and a timer of 24 hours, is not part of this function's
  effect.
\<close>

definition scheduleDailyFetch :: "world \<Rightarrow> error option \<times> world" where
  "scheduleDailyFetch w =
     (let (now, w1) = new_Date w;
          w2 = w1\<lparr>timers := timers w1 @ [msUntilNext now]\<rparr>
      in case toISOString (nextFetchDate now) of
           Inl e \<Rightarrow> (Some e, w2)
         | Inr logged \<Rightarrow> (None, w2))"

subsection \<open>A sync cycle\<close>

text \<open>
  The \<^verbatim>\<open>try\<close> block of \<^verbatim>\<open>fetchAndStoreData\<close>: the error it raises, if any, and the world
  at that moment. Only the write to the store can raise in it: the fetcher catches its own
  errors, and sorting and filtering a series raise nothing.
\<close>

definition fetchAndStoreData_try ::
  "runtime \<Rightarrow> upstream \<Rightarrow> PricePoint list \<Rightarrow> world \<Rightarrow> error option \<times> world" where
  "fetchAndStoreData_try rt up existingData w =
     (let (today, w1) = new_Date w;
          startDate = Date_parse rt START_DATE;
          run = fetchHistoricalData rt up startDate today (set (map date existingData));
          w2 = w1\<lparr>sent := sent w1 @ requests run\<rparr>;
          uniqueData = mergeSeries rt existingData (newData run)
      in case setItem (storage w2) (series_json uniqueData) of
           Inl e \<Rightarrow> (Some e, w2)
         | Inr ls \<Rightarrow>
             (None, updateDisplayInfo
                      (updateStatus ''Data fetched and stored successfully''
                         (displayData uniqueData (w2\<lparr>storage := ls\<rparr>)))))"

text \<open>
  \<^verbatim>\<open>fetchAndStoreData\<close> with its \<^verbatim>\<open>catch\<close>. The first component is the error that
  reaches the caller.
\<close>

definition fetchAndStoreData ::
  "runtime \<Rightarrow> upstream \<Rightarrow> PricePoint list \<Rightarrow> world \<Rightarrow> error option \<times> world" where
  "fetchAndStoreData rt up existingData w =
     (case fetchAndStoreData_try rt up existingData
             (updateStatus ''Fetching data from Binance...'' w) of
        (None, w') \<Rightarrow> (None, w')
      | (Some e, w') \<Rightarrow>
          (let w1 = updateStatus ''Error fetching data'' (showError e w')
           in (None, if length existingData > 0 then displayData existingData w1 else w1)))"

subsection \<open>Start of the page\<close>

definition lastStoredDate :: "PricePoint list \<Rightarrow> string option" where
  "lastStoredDate existingData =
     (if length existingData > 0 then Some (date (last existingData)) else None)"

text \<open>\<^verbatim>\<open>!lastStoredDate || lastStoredDate < today\<close>: \<^verbatim>\<open>null\<close> and the empty string are falsy.\<close>

definition needsFetch :: "string \<Rightarrow> PricePoint list \<Rightarrow> bool" where
  "needsFetch today existingData =
     (case lastStoredDate existingData of
        None \<Rightarrow> True
      | Some d \<Rightarrow> d = [] \<or> str_lt d today)"

text \<open>
  \<^verbatim>\<open>initializeApp\<close>. The script is untyped and goes on with whatever the store gave it;
  the model is typed and stops with a TypeError at a stored value that is not a series.
\<close>

definition initializeApp :: "runtime \<Rightarrow> upstream \<Rightarrow> world \<Rightarrow> error option \<times> world" where
  "initializeApp rt up w =
     (let w0 = updateStatus ''Initializing...'' w
      in case loadStoredData (storage w0) of
           Inl e \<Rightarrow> (Some e, w0)
         | Inr v \<Rightarrow>
             (case as_series v of
                None \<Rightarrow> (Some TypeError, w0)
              | Some existingData \<Rightarrow>
                  (let (now, w1) = new_Date w0
                   in case toISOString now of
                        Inl e \<Rightarrow> (Some e, w1)
                      | Inr isoString \<Rightarrow>
                          (let today = split_T0 isoString;
                               (r, w2) =
                                 (if needsFetch today existingData
                                  then fetchAndStoreData rt up existingData w1
                                  else (None, updateStatus ''Data loaded from storage''
                                                (displayData existingData w1)))
                           in case r of
                                Some e \<Rightarrow> (Some e, w2)
                              | None \<Rightarrow>
                                  (case scheduleDailyFetch w2 of
                                     (Some e, w3) \<Rightarrow> (Some e, w3)
                                   | (None, w3) \<Rightarrow> (None, updateDisplayInfo w3))))))"


section \<open>Properties of the store\<close>

lemma as_point_json: "as_point (point_json p) = Some p"
  by (simp add: as_point_def point_json_def)

lemma as_series_json: "as_series (series_json s) = Some s"
proof -
  have "those (map as_point (map point_json s)) = Some s"
    by (induction s) (simp_all add: as_point_json)
  then show ?thesis by (simp add: as_series_def series_json_def)
qed

text \<open>
  C6, as the code has it. \<^verbatim>\<open>loadStoredData\<close> never raises. It returns the empty series
  when the storage may not be read, when nothing is stored, when the stored text is empty
  and when it does not parse; otherwise it returns the parsed value as it is, which is the
  series that was saved when the text is a saved series.
\<close>

theorem load_fails_soft:
  "loadStoredData ls
     = Inr (if denied ls then JArr []
            else (case item ls of
                    None \<Rightarrow> JArr []
                  | Some EmptyText \<Rightarrow> JArr []
                  | Some Malformed \<Rightarrow> JArr []
                  | Some (Encoded v) \<Rightarrow> v))
   \<and> as_series (JArr []) = Some []
   \<and> as_series (series_json s) = Some s"
  by (simp add: loadStoredData_def getItem_def JSON_parse_def as_series_json
      split: option.splits stored_text.splits)
     (simp add: as_series_def)

text \<open>
  The claim as stated fails: the stored text \<^verbatim>\<open>null\<close> is valid JSON, and what
  \<^verbatim>\<open>loadStoredData\<close> returns for it is \<^verbatim>\<open>null\<close>, not a series.
\<close>

theorem load_returns_null:
  "loadStoredData \<lparr>item = Some (Encoded JNull), denied = False, full = False\<rparr> = Inr JNull
   \<and> as_series JNull = None"
  by (simp add: loadStoredData_def getItem_def JSON_parse_def as_series_def)

section \<open>Properties of the scheduler\<close>

lemma msUntilNext_value:
  assumes lo: "- maxTime \<le> now" and hi: "now + msPerDay \<le> maxTime"
  shows "msUntilNext (Some now) = Some (msPerDay - now mod msPerDay)"
proof -
  have d: "0 < msPerDay" by (simp add: msPerDay_def)
  have m: "0 \<le> now mod msPerDay" "now mod msPerDay < msPerDay"
    using mod_day_bounds[of now] by simp_all
  have 1: "setUTCDate (Some now) (num_add (getUTCDate (Some now)) 1) = Some (now + msPerDay)"
  proof -
    have "setUTCDate (Some now) (num_add (getUTCDate (Some now)) 1)
          = TimeClip (now + 1 * msPerDay)"
      by (simp add: withDate_shift)
    also have "\<dots> = Some (now + msPerDay)"
      using lo hi d by (simp add: TimeClip_def)
    finally show ?thesis .
  qed
  have 2: "setUTCHours (Some (now + msPerDay)) 0 0 0 0
           = Some (now + msPerDay - now mod msPerDay)"
  proof -
    have "MakeDate (Day (now + msPerDay)) (MakeTime 0 0 0 0) = (Day now + 1) * msPerDay"
      by (simp add: MakeDate_def MakeTime_def Day_next)
    also have "\<dots> = now + msPerDay - now mod msPerDay"
      using day_start[of now] by (simp add: algebra_simps)
    finally have e: "MakeDate (Day (now + msPerDay)) (MakeTime 0 0 0 0)
                     = now + msPerDay - now mod msPerDay" .
    have "\<bar>now + msPerDay - now mod msPerDay\<bar> \<le> maxTime"
      using lo hi m by linarith
    then show ?thesis by (simp add: e TimeClip_def)
  qed
  show ?thesis unfolding msUntilNext_def nextFetchDate_def 1 2 by simp
qed

text \<open>
  C7. For every instant \<open>now\<close> of a clock (a time value with a next day inside the range of
  Date), the delay is positive, leads to a UTC day boundary, and to no later one than the
  first after \<open>now\<close>.
\<close>

theorem delay_to_next_utc_midnight:
  assumes "- maxTime \<le> now" and "now + msPerDay \<le> maxTime"
  shows "\<exists>d. msUntilNext (Some now) = Some d
             \<and> d = (Day now + 1) * msPerDay - now
             \<and> 0 < d
             \<and> (now + d) mod msPerDay = 0
             \<and> (\<forall>d'. 0 < d' \<and> d' < d \<longrightarrow> (now + d') mod msPerDay \<noteq> 0)"
proof -
  let ?d = "msPerDay - now mod msPerDay"
  have m: "0 \<le> now mod msPerDay" "now mod msPerDay < msPerDay"
    using mod_day_bounds[of now] by simp_all
  have v: "msUntilNext (Some now) = Some ?d" using assms by (rule msUntilNext_value)
  have e: "?d = (Day now + 1) * msPerDay - now"
    using day_start[of now] by (simp add: algebra_simps)
  have p: "0 < ?d" using m by simp
  have "now + ?d = (Day now + 1) * msPerDay" using e by simp
  then have z: "(now + ?d) mod msPerDay = 0" by simp
  have n: "(now + d') mod msPerDay \<noteq> 0" if "0 < d'" "d' < ?d" for d'
  proof -
    have "now + d' = (now mod msPerDay + d') + Day now * msPerDay"
      using day_start[of now] by simp
    then have "(now + d') mod msPerDay = ((now mod msPerDay + d') + Day now * msPerDay) mod msPerDay"
      by (rule arg_cong)
    also have "\<dots> = (now mod msPerDay + d') mod msPerDay"
      by (rule mod_mult_self1)
    also have "\<dots> = now mod msPerDay + d'"
      using that m by (simp add: mod_pos_pos_trivial)
    finally show ?thesis using that m by simp
  qed
  have a: "\<forall>d'. 0 < d' \<and> d' < ?d \<longrightarrow> (now + d') mod msPerDay \<noteq> 0"
    using n by simp
  show ?thesis
    by (rule exI[of _ ?d]) (intro conjI v e p z a)
qed

theorem delay_to_next_utc_midnight_witness:
  "- maxTime \<le> 1767272400000 \<and> 1767272400000 + msPerDay \<le> maxTime
   \<and> msUntilNext (Some 1767272400000) = Some 39600000
   \<and> (1767272400000 + 39600000) mod msPerDay = 0
   \<and> 1767272400000 + 39600000 = (1767312000000 :: int)"
proof -
  have a: "- maxTime \<le> 1767272400000" by (simp add: maxTime_def)
  have b: "1767272400000 + msPerDay \<le> maxTime" by (simp add: maxTime_def msPerDay_def)
  from delay_to_next_utc_midnight[OF a b]
  obtain d where "msUntilNext (Some 1767272400000) = Some d"
    and "d = (Day 1767272400000 + 1) * msPerDay - 1767272400000" by blast
  then have c: "msUntilNext (Some 1767272400000) = Some 39600000"
    by (simp add: Day_def msPerDay_def)
  have d: "(1767272400000 + 39600000) mod msPerDay = 0" by (simp add: msPerDay_def)
  have e: "1767272400000 + 39600000 = (1767312000000 :: int)" by simp
  from a b c d e show ?thesis by (intro conjI)
qed

lemma scheduleDailyFetch_timer:
  "timers (snd (scheduleDailyFetch w))
   = timers w @ [msUntilNext (Date_of_number (Some (clock w (reads w))))]"
  by (simp add: scheduleDailyFetch_def new_Date_def Let_def split: sum.splits)


section \<open>Properties of a sync cycle\<close>

lemma year_string_head: "\<exists>c cs. year_string y = c # cs \<and> c \<noteq> CHR ''T''"
proof -
  have p: "\<exists>c cs. pad (Suc k) n = c # cs \<and> is_digit c" for k n
  proof (induction k arbitrary: n)
    case 0
    then show ?case by (simp add: is_digit_digit_char)
  next
    case (Suc k)
    from Suc[of "n div 10"] obtain c cs where "pad (Suc k) (n div 10) = c # cs" "is_digit c"
      by blast
    then show ?case by simp
  qed
  have 4: "\<exists>c cs. pad 4 n = c # cs \<and> c \<noteq> CHR ''T''" for n
    using p[of 3 n] is_digit_not_T by (auto simp: eval_nat_numeral)
  show ?thesis using 4[of y] by (auto simp: year_string_def)
qed

lemma today_not_empty: "toISOString d = Inr s \<Longrightarrow> split_T0 s \<noteq> []"
proof (cases d)
  case None
  assume "toISOString d = Inr s"
  with None show ?thesis by simp
next
  case (Some t)
  assume a: "toISOString d = Inr s"
  obtain c cs where "year_string (YearFromTime t) = c # cs" "c \<noteq> CHR ''T''"
    using year_string_head by blast
  with a Some show ?thesis by (auto simp: split_T0_def)
qed

lemma needsFetch_iff:
  assumes "today \<noteq> []"
  shows "needsFetch today S = (S = [] \<or> str_lt (date (last S)) today)"
proof (cases "S = []")
  case True
  then show ?thesis by (simp add: needsFetch_def lastStoredDate_def)
next
  case False
  obtain c cs where t: "today = c # cs" using assms by (cases today) auto
  have "date (last S) = [] \<Longrightarrow> str_lt (date (last S)) today" by (simp add: t)
  with False show ?thesis by (auto simp: needsFetch_def lastStoredDate_def)
qed

lemma fetchAndStoreData_caller: "fst (fetchAndStoreData rt up S w) = None"
  by (simp add: fetchAndStoreData_def Let_def split: prod.splits option.splits)

lemma fetchAndStoreData_sent:
  "sent (snd (fetchAndStoreData rt up S w))
   = sent w @ requests (fetchHistoricalData rt up (Date_parse rt START_DATE)
                          (Date_of_number (Some (clock w (reads w)))) (set (map date S)))"
proof -
  let ?run = "fetchHistoricalData rt up (Date_parse rt START_DATE)
                (Date_of_number (Some (clock w (reads w)))) (set (map date S))"
  show ?thesis
  proof (cases "setItem (storage w) (series_json (mergeSeries rt S (newData ?run)))")
    case (Inl e)
    then show ?thesis
      by (simp add: fetchAndStoreData_def fetchAndStoreData_try_def new_Date_def
          updateStatus_def showError_def displayData_def Let_def)
  next
    case (Inr ls)
    then show ?thesis
      by (simp add: fetchAndStoreData_def fetchAndStoreData_try_def new_Date_def
          updateStatus_def displayData_def updateDisplayInfo_def Let_def)
  qed
qed

text \<open>
  C3, as the code has it. No error of a sync cycle reaches the caller: the \<^verbatim>\<open>catch\<close> of
  \<^verbatim>\<open>fetchAndStoreData\<close> takes every one. When the write to the store raises, the stored
  text is left as it was, the error is shown, the status says so and a non-empty existing
  series is drawn again; when it does not, the merged series is what is stored.
\<close>

theorem sync_catches_errors:
  "fst (fetchAndStoreData rt up S w) = None
   \<and> (denied (storage w) \<or> full (storage w) \<longrightarrow>
        storage (snd (fetchAndStoreData rt up S w)) = storage w
        \<and> shown (snd (fetchAndStoreData rt up S w))
            = shown w @ [if denied (storage w) then SecurityError else QuotaExceededError]
        \<and> status (snd (fetchAndStoreData rt up S w)) = ''Error fetching data''
        \<and> (S \<noteq> [] \<longrightarrow> table (snd (fetchAndStoreData rt up S w)) = Some S))
   \<and> (\<not> denied (storage w) \<and> \<not> full (storage w) \<longrightarrow>
        item (storage (snd (fetchAndStoreData rt up S w)))
          = Some (Encoded (series_json (mergeSeries rt S
              (newData (fetchHistoricalData rt up (Date_parse rt START_DATE)
                          (Date_of_number (Some (clock w (reads w)))) (set (map date S)))))))
        \<and> shown (snd (fetchAndStoreData rt up S w)) = shown w)"
  by (simp add: fetchAndStoreData_def fetchAndStoreData_try_def new_Date_def updateStatus_def
      showError_def displayData_def updateDisplayInfo_def setItem_def Let_def)

text \<open>
  A world on 2026-01-03 at noon UTC whose store holds the series \<open>jan_existing\<close>, and is
  full or not.
\<close>

definition jan_world :: "bool \<Rightarrow> world" where
  "jan_world is_full =
     \<lparr>storage = \<lparr>item = Some (Encoded (series_json jan_existing)), denied = False,
                 full = is_full\<rparr>,
      clock = (\<lambda>k. 1767441600000), reads = 0, table = None, status = [],
      shown = [], sent = [], timers = []\<rparr>"

text \<open>
  The claim as stated fails: with a full store the write raises QuotaExceededError, the
  error is shown, and the caller gets no error.
\<close>

theorem sync_error_not_propagated:
  "setItem (storage (jan_world True))
     (series_json (mergeSeries utc_host jan_existing
        (newData (fetchHistoricalData utc_host five_candles (Date_parse utc_host START_DATE)
                    (Some 1767441600000) (set (map date jan_existing))))))
     = Inl QuotaExceededError
   \<and> fst (fetchAndStoreData utc_host five_candles jan_existing (jan_world True)) = None
   \<and> shown (snd (fetchAndStoreData utc_host five_candles jan_existing (jan_world True)))
       = [QuotaExceededError]"
  by code_simp

theorem sync_catches_errors_witness:
  "(denied (storage (jan_world True)) \<or> full (storage (jan_world True)))
   \<and> jan_existing \<noteq> []
   \<and> fst (fetchAndStoreData utc_host five_candles jan_existing (jan_world True)) = None
   \<and> storage (snd (fetchAndStoreData utc_host five_candles jan_existing (jan_world True)))
       = storage (jan_world True)
   \<and> status (snd (fetchAndStoreData utc_host five_candles jan_existing (jan_world True)))
       = ''Error fetching data''
   \<and> table (snd (fetchAndStoreData utc_host five_candles jan_existing (jan_world True)))
       = Some jan_existing
   \<and> \<not> denied (storage (jan_world False)) \<and> \<not> full (storage (jan_world False))
   \<and> item (storage (snd (fetchAndStoreData utc_host five_candles jan_existing
                            (jan_world False))))
       = Some (Encoded (series_json
           [\<lparr>date = ''2026-01-01'', price = ''0.100000''\<rparr>,
            \<lparr>date = ''2026-01-02'', price = ''0.125000''\<rparr>,
            \<lparr>date = ''2026-01-03'', price = ''0.300000''\<rparr>]))"
proof -
  let ?bad = "fetchAndStoreData utc_host five_candles jan_existing (jan_world True)"
  let ?good = "fetchAndStoreData utc_host five_candles jan_existing (jan_world False)"
  have a: "denied (storage (jan_world True)) \<or> full (storage (jan_world True))"
    by (simp add: jan_world_def)
  have n: "jan_existing \<noteq> []" by (simp add: jan_existing_def)
  note t = sync_catches_errors[of utc_host five_candles jan_existing "jan_world True"]
  from t have b: "fst ?bad = None" by (rule conjunct1)
  from t a have c: "storage (snd ?bad) = storage (jan_world True)" by blast
  from t a have d: "status (snd ?bad) = ''Error fetching data''" by blast
  from t a n have e: "table (snd ?bad) = Some jan_existing" by blast
  have g1: "\<not> denied (storage (jan_world False))" by (simp add: jan_world_def)
  have g2: "\<not> full (storage (jan_world False))" by (simp add: jan_world_def)
  have m: "mergeSeries utc_host jan_existing
             (newData (fetchHistoricalData utc_host five_candles (Date_parse utc_host START_DATE)
                (Date_of_number (Some (clock (jan_world False) (reads (jan_world False)))))
                (set (map date jan_existing))))
           = [\<lparr>date = ''2026-01-01'', price = ''0.100000''\<rparr>,
              \<lparr>date = ''2026-01-02'', price = ''0.125000''\<rparr>,
              \<lparr>date = ''2026-01-03'', price = ''0.300000''\<rparr>]"
    by code_simp
  note u = sync_catches_errors[of utc_host five_candles jan_existing "jan_world False"]
  from u g1 g2 have "item (storage (snd ?good))
      = Some (Encoded (series_json (mergeSeries utc_host jan_existing
          (newData (fetchHistoricalData utc_host five_candles (Date_parse utc_host START_DATE)
             (Date_of_number (Some (clock (jan_world False) (reads (jan_world False)))))
             (set (map date jan_existing)))))))" by blast
  then have h: "item (storage (snd ?good))
      = Some (Encoded (series_json
           [\<lparr>date = ''2026-01-01'', price = ''0.100000''\<rparr>,
            \<lparr>date = ''2026-01-02'', price = ''0.125000''\<rparr>,
            \<lparr>date = ''2026-01-03'', price = ''0.300000''\<rparr>]))"
    by (simp only: m)
  from a n b c d e g1 g2 h show ?thesis by (intro conjI)
qed

section \<open>Properties of the start of the page\<close>

text \<open>What the rest of \<^verbatim>\<open>initializeApp\<close> leaves as the sync decision made it.\<close>

definition outcome ::
  "world \<Rightarrow> localStorage \<times> PricePoint list option \<times> string \<times> (jsint \<times> jsint) list" where
  "outcome w = (storage w, table w, status w, sent w)"

lemma outcome_scheduleDailyFetch: "outcome (snd (scheduleDailyFetch w)) = outcome w"
  by (simp add: scheduleDailyFetch_def new_Date_def outcome_def Let_def split: sum.splits)

lemma outcome_updateDisplayInfo: "outcome (updateDisplayInfo w) = outcome w"
  by (simp add: updateDisplayInfo_def new_Date_def outcome_def)

lemma outcome_after_schedule:
  "outcome (snd (case scheduleDailyFetch w of
                   (Some e, w3) \<Rightarrow> (Some e, w3)
                 | (None, w3) \<Rightarrow> (None, updateDisplayInfo w3))) = outcome w"
proof (cases "scheduleDailyFetch w")
  case (Pair r w3)
  then have "outcome w3 = outcome w" using outcome_scheduleDailyFetch[of w] by simp
  with Pair show ?thesis by (cases r) (simp_all add: outcome_updateDisplayInfo)
qed

text \<open>
  C1. For a store that holds a series and a clock that shows a valid date:
  \<^verbatim>\<open>initializeApp\<close> runs a sync cycle if and only if the series is empty or the date of
  its last point compares below today's UTC date. When it does, the store, the table and
  the status are those the cycle leaves and the cycle's requests have been sent; when it
  does not, nothing is sent or stored and the series is drawn as it is.
\<close>

theorem fetch_iff_stale:
  assumes "loadStoredData (storage w) = Inr v" and "as_series v = Some S"
    and "toISOString (Date_of_number (Some (clock w (reads w)))) = Inr isoString"
  shows "needsFetch (split_T0 isoString) S
           = (S = [] \<or> str_lt (date (last S)) (split_T0 isoString))
         \<and> (if needsFetch (split_T0 isoString) S
            then outcome (snd (initializeApp rt up w))
                   = outcome (snd (fetchAndStoreData rt up S
                       ((updateStatus ''Initializing...'' w)\<lparr>reads := Suc (reads w)\<rparr>)))
                 \<and> sent (snd (initializeApp rt up w))
                     = sent w @ requests (fetchHistoricalData rt up (Date_parse rt START_DATE)
                         (Date_of_number (Some (clock w (Suc (reads w))))) (set (map date S)))
            else sent (snd (initializeApp rt up w)) = sent w
                 \<and> storage (snd (initializeApp rt up w)) = storage w
                 \<and> table (snd (initializeApp rt up w)) = Some S
                 \<and> status (snd (initializeApp rt up w)) = ''Data loaded from storage'')"
proof -
  let ?today = "split_T0 isoString"
  let ?w1 = "(updateStatus ''Initializing...'' w)\<lparr>reads := Suc (reads w)\<rparr>"
  have n: "needsFetch ?today S = (S = [] \<or> str_lt (date (last S)) ?today)"
    by (rule needsFetch_iff) (rule today_not_empty[OF assms(3)])
  have l: "loadStoredData (storage (updateStatus ''Initializing...'' w)) = Inr v"
    using assms(1) by (simp add: updateStatus_def)
  have d: "new_Date (updateStatus ''Initializing...'' w)
           = (TimeClip (clock w (reads w)), ?w1)"
    by (simp add: new_Date_def updateStatus_def)
  have iso: "toISOString (TimeClip (clock w (reads w))) = Inr isoString"
    using assms(3) by simp
  show ?thesis
  proof (cases "needsFetch ?today S")
    case True
    obtain w2 where f: "fetchAndStoreData rt up S ?w1 = (None, w2)"
      using fetchAndStoreData_caller[of rt up S ?w1]
      by (cases "fetchAndStoreData rt up S ?w1") auto
    have i: "initializeApp rt up w
             = (case scheduleDailyFetch w2 of
                  (Some e, w3) \<Rightarrow> (Some e, w3)
                | (None, w3) \<Rightarrow> (None, updateDisplayInfo w3))"
      using True by (simp add: initializeApp_def l assms(2) iso d f Let_def)
    have o: "outcome (snd (initializeApp rt up w)) = outcome w2"
      unfolding i by (rule outcome_after_schedule)
    then have "sent (snd (initializeApp rt up w)) = sent w2" by (simp add: outcome_def)
    also have "\<dots> = sent (snd (fetchAndStoreData rt up S ?w1))" by (simp add: f)
    also have "\<dots> = sent w @ requests (fetchHistoricalData rt up (Date_parse rt START_DATE)
                         (Date_of_number (Some (clock w (Suc (reads w))))) (set (map date S)))"
      by (simp add: fetchAndStoreData_sent updateStatus_def)
    finally show ?thesis using True n o f by simp
  next
    case False
    let ?w2 = "updateStatus ''Data loaded from storage'' (displayData S ?w1)"
    have i: "initializeApp rt up w
             = (case scheduleDailyFetch ?w2 of
                  (Some e, w3) \<Rightarrow> (Some e, w3)
                | (None, w3) \<Rightarrow> (None, updateDisplayInfo w3))"
      using False by (simp add: initializeApp_def l assms(2) iso d Let_def)
    have "outcome (snd (initializeApp rt up w)) = outcome ?w2"
      unfolding i by (rule outcome_after_schedule)
    then show ?thesis using False n
      by (simp add: outcome_def updateStatus_def displayData_def)
  qed
qed

text \<open>
  A store that holds a series ending on 2026-03-10, read on 2026-03-10 at noon UTC and on
  2026-03-11 at noon UTC.
\<close>

definition march_series :: "PricePoint list" where
  "march_series =
     [\<lparr>date = ''2026-03-09'', price = ''0.110000''\<rparr>,
      \<lparr>date = ''2026-03-10'', price = ''0.120000''\<rparr>]"

definition march_world :: "int \<Rightarrow> world" where
  "march_world now =
     \<lparr>storage = \<lparr>item = Some (Encoded (series_json march_series)), denied = False,
                 full = False\<rparr>,
      clock = (\<lambda>k. now), reads = 0, table = None, status = [],
      shown = [], sent = [], timers = []\<rparr>"

theorem fetch_iff_stale_witness:
  "loadStoredData (storage (march_world 1773144000000)) = Inr (series_json march_series)
   \<and> as_series (series_json march_series) = Some march_series
   \<and> toISOString (Date_of_number (Some (clock (march_world 1773144000000)
         (reads (march_world 1773144000000))))) = Inr ''2026-03-10T12:00:00.000Z''
   \<and> needsFetch ''2026-03-10'' march_series = False
   \<and> sent (snd (initializeApp utc_host no_candles (march_world 1773144000000))) = []
   \<and> table (snd (initializeApp utc_host no_candles (march_world 1773144000000)))
       = Some march_series
   \<and> toISOString (Date_of_number (Some (clock (march_world 1773230400000)
         (reads (march_world 1773230400000))))) = Inr ''2026-03-11T12:00:00.000Z''
   \<and> needsFetch ''2026-03-11'' march_series = True
   \<and> sent (snd (initializeApp utc_host no_candles (march_world 1773230400000)))
       = [(Some 1767225600000, Some 1773273599999)]"
proof -
  have a1: "loadStoredData (storage (march_world now)) = Inr (series_json march_series)" for now
    by (simp add: march_world_def loadStoredData_def getItem_def JSON_parse_def)
  have a2: "as_series (series_json march_series) = Some march_series"
    by (rule as_series_json)
  have a3: "toISOString (Date_of_number (Some (clock (march_world 1773144000000)
              (reads (march_world 1773144000000))))) = Inr ''2026-03-10T12:00:00.000Z''"
    by code_simp
  have b3: "toISOString (Date_of_number (Some (clock (march_world 1773230400000)
              (reads (march_world 1773230400000))))) = Inr ''2026-03-11T12:00:00.000Z''"
    by code_simp
  have s1: "split_T0 ''2026-03-10T12:00:00.000Z'' = ''2026-03-10''"
    by (simp add: split_T0_def)
  have s2: "split_T0 ''2026-03-11T12:00:00.000Z'' = ''2026-03-11''"
    by (simp add: split_T0_def)
  have n1: "needsFetch ''2026-03-10'' march_series = False"
    by (simp add: needsFetch_def lastStoredDate_def march_series_def)
  have n2: "needsFetch ''2026-03-11'' march_series = True"
    by (simp add: needsFetch_def lastStoredDate_def march_series_def)
  note t1 = fetch_iff_stale[OF a1 a2 a3, of utc_host no_candles, unfolded s1 n1 if_False]
  note t2 = fetch_iff_stale[OF a1 a2 b3, of utc_host no_candles, unfolded s2 n2 if_True]
  have e1: "sent (march_world 1773144000000) = []" by (simp add: march_world_def)
  have e2: "sent (march_world 1773230400000) = []" by (simp add: march_world_def)
  have e3: "clock (march_world 1773230400000) (Suc (reads (march_world 1773230400000)))
            = 1773230400000" by (simp add: march_world_def)
  have r: "requests (fetchHistoricalData utc_host no_candles (Date_parse utc_host START_DATE)
              (Date_of_number (Some 1773230400000)) (set (map date march_series)))
           = [(Some 1767225600000, Some 1773273599999)]"
    by code_simp
  note c1 = t1[THEN conjunct2, THEN conjunct1, unfolded e1]
  note c2 = t1[THEN conjunct2, THEN conjunct2, THEN conjunct2, THEN conjunct1]
  note c3 = t2[THEN conjunct2, THEN conjunct2, unfolded e2 e3 r append_Nil]
  from a1[of 1773144000000] a2 a3 n1 c1 c2 b3 n2 c3 show ?thesis by (intro conjI)
qed

end
